theory Spec2Isabelle
  imports Complex_Main "HOL-Library.Multiset" "HOL-Library.Product_Lexorder"
begin

section \<open>SessionJoinQueue (fitness\_sessions/queue.py)\<close>

text \<open>
  The queue object holds one Python list, \<open>self.items\<close>. A method that mutates the
  object returns the new list next to its result; a method that only reads returns its
  result alone. An item is any Python value: \<open>None\<close> of the option type is Python's
  \<open>None\<close>, \<open>Some x\<close> is any other object. \<open>dequeue\<close> and \<open>peek\<close> return the item
  itself, so they return \<open>None\<close> both on an empty queue and for a stored \<open>None\<close>. No
  method of the class raises.
\<close>

type_synonym 'a queue = "'a option list"

definition enqueue :: "'a queue \<Rightarrow> 'a option \<Rightarrow> 'a queue" where
  "enqueue items item = items @ [item]"

definition is_empty_queue :: "'a queue \<Rightarrow> bool" where
  "is_empty_queue items = (length items = 0)"

definition dequeue :: "'a queue \<Rightarrow> 'a option \<times> 'a queue" where
  "dequeue items =
     (if \<not> is_empty_queue items then (items ! 0, drop 1 items)
      else (None, items))"

definition size_queue :: "'a queue \<Rightarrow> nat" where
  "size_queue items = length items"

definition peek :: "'a queue \<Rightarrow> 'a option" where
  "peek items = (if \<not> is_empty_queue items then items ! 0 else None)"

section \<open>MinHeap (trainer\_bookings/min\_heap.py)\<close>

text \<open>
  The heap object holds one Python list, \<open>self.heap\<close>, of tuples
  \<open>(priority_score, booking)\<close>; only component 0 of a tuple is ever compared. Scores
  are values of any type that has Python's \<open><\<close> and \<open><=\<close>; no law is assumed of the
  two, so the float type \<open>pyfloat\<close> below, where every comparison with NaN is false, is
  one such type. Indices handed to the methods by \<open>insert\<close> and \<open>extract_min\<close> are
  non-negative, so they are naturals; \<open>get_parent_index\<close> is Python's floor division
  \<open>(index - 1) // 2\<close> on the integers, which is \<open>-1\<close> at the root, and \<open>parent\<close>
  subscripts the list as Python does, a negative index counting from the end.
\<close>

type_synonym ('k, 'a) heap = "('k \<times> 'a) list"

definition size_heap :: "('k, 'a) heap \<Rightarrow> nat" where
  "size_heap heap = length heap"

definition is_empty_heap :: "('k, 'a) heap \<Rightarrow> bool" where
  "is_empty_heap heap = (length heap = 0)"

definition get_parent_index :: "nat \<Rightarrow> int" where
  "get_parent_index index = (int index - 1) div 2"

definition get_left_child_index :: "nat \<Rightarrow> nat" where
  "get_left_child_index index = 2 * index + 1"

definition get_right_child_index :: "nat \<Rightarrow> nat" where
  "get_right_child_index index = 2 * index + 2"

definition has_parent :: "nat \<Rightarrow> bool" where
  "has_parent index = (get_parent_index index \<ge> 0)"

definition has_left_child :: "('k, 'a) heap \<Rightarrow> nat \<Rightarrow> bool" where
  "has_left_child heap index = (get_left_child_index index < length heap)"

definition has_right_child :: "('k, 'a) heap \<Rightarrow> nat \<Rightarrow> bool" where
  "has_right_child heap index = (get_right_child_index index < length heap)"

definition parent :: "('k, 'a) heap \<Rightarrow> nat \<Rightarrow> 'k \<times> 'a" where
  "parent heap index =
     (if get_parent_index index < 0
      then heap ! nat (int (length heap) + get_parent_index index)
      else heap ! nat (get_parent_index index))"

definition left_child :: "('k, 'a) heap \<Rightarrow> nat \<Rightarrow> 'k \<times> 'a" where
  "left_child heap index = heap ! get_left_child_index index"

definition right_child :: "('k, 'a) heap \<Rightarrow> nat \<Rightarrow> 'k \<times> 'a" where
  "right_child heap index = heap ! get_right_child_index index"

definition swap_heap :: "('k, 'a) heap \<Rightarrow> nat \<Rightarrow> nat \<Rightarrow> ('k, 'a) heap" where
  "swap_heap heap index1 index2 = heap[index1 := heap ! index2, index2 := heap ! index1]"

definition get_min :: "('k, 'a) heap \<Rightarrow> ('k \<times> 'a) option" where
  "get_min heap = (if is_empty_heap heap then None else Some (heap ! 0))"

function heapify_up :: "('k::ord, 'a) heap \<Rightarrow> nat \<Rightarrow> ('k, 'a) heap" where
  "heapify_up heap index =
     (if has_parent index \<and> fst (heap ! index) < fst (parent heap index)
      then heapify_up (swap_heap heap index (nat (get_parent_index index)))
             (nat (get_parent_index index))
      else heap)"
  by pat_completeness auto
termination
  by (relation "measure (\<lambda>(heap, index). index)")
     (auto simp: has_parent_def get_parent_index_def)

declare heapify_up.simps [simp del]

definition insert_heap :: "('k::ord, 'a) heap \<Rightarrow> 'k \<times> 'a \<Rightarrow> ('k, 'a) heap" where
  "insert_heap heap item = heapify_up (heap @ [item]) (length (heap @ [item]) - 1)"

definition smaller_child_index :: "('k::ord, 'a) heap \<Rightarrow> nat \<Rightarrow> nat" where
  "smaller_child_index heap index =
     (if has_right_child heap index \<and> fst (right_child heap index) < fst (left_child heap index)
      then get_right_child_index index
      else get_left_child_index index)"

function heapify_down :: "('k::ord, 'a) heap \<Rightarrow> nat \<Rightarrow> ('k, 'a) heap" where
  "heapify_down heap index =
     (if has_left_child heap index
      then (if fst (heap ! index) < fst (heap ! smaller_child_index heap index)
            then heap
            else heapify_down (swap_heap heap index (smaller_child_index heap index))
                   (smaller_child_index heap index))
      else heap)"
  by pat_completeness auto
termination
  by (relation "measure (\<lambda>(heap, index). length heap - index)")
     (auto simp: has_left_child_def has_right_child_def smaller_child_index_def
        get_left_child_index_def get_right_child_index_def swap_heap_def)

declare heapify_down.simps [simp del]

definition extract_min :: "('k::ord, 'a) heap \<Rightarrow> ('k \<times> 'a) option \<times> ('k, 'a) heap" where
  "extract_min heap =
     (if is_empty_heap heap then (None, heap)
      else (let min_item = heap ! 0;
                heap1 = heap[0 := heap ! (length heap - 1)];
                heap2 = butlast heap1
            in (Some min_item,
                if \<not> is_empty_heap heap2 then heapify_down heap2 0 else heap2)))"

definition get_all :: "('k, 'a) heap \<Rightarrow> ('k, 'a) heap" where
  "get_all heap = heap"

subsection \<open>Python floats as scores\<close>

text \<open>
  The scores of the bookings are Python floats: the finite values (real numbers here), the
  two infinities and NaN. \<open>float_lt\<close> and \<open>float_le\<close> are Python's \<open><\<close> and \<open><=\<close>
  on them: a comparison with NaN on either side is false, also \<open>nan <= nan\<close>.
\<close>

datatype pyfloat = NegInf | Float real | PosInf | NaN

fun float_lt :: "pyfloat \<Rightarrow> pyfloat \<Rightarrow> bool" where
  "float_lt NaN y = False"
| "float_lt x NaN = False"
| "float_lt (Float x) (Float y) = (x < y)"
| "float_lt x NegInf = False"
| "float_lt NegInf y = True"
| "float_lt PosInf y = False"
| "float_lt x PosInf = True"

definition float_eq :: "pyfloat \<Rightarrow> pyfloat \<Rightarrow> bool" where
  "float_eq x y = (x \<noteq> NaN \<and> y \<noteq> NaN \<and> x = y)"

definition float_le :: "pyfloat \<Rightarrow> pyfloat \<Rightarrow> bool" where
  "float_le x y = (float_lt x y \<or> float_eq x y)"

instantiation pyfloat :: ord
begin

definition less_pyfloat :: "pyfloat \<Rightarrow> pyfloat \<Rightarrow> bool" where
  "less_pyfloat = float_lt"

definition less_eq_pyfloat :: "pyfloat \<Rightarrow> pyfloat \<Rightarrow> bool" where
  "less_eq_pyfloat = float_le"

instance ..

end

text \<open>
  The floats other than NaN are linearly ordered; \<open>float_key\<close> places them in a linear
  order, pairs compared first by the first component.
\<close>

fun float_key :: "pyfloat \<Rightarrow> nat \<times> real" where
  "float_key NegInf = (0, 0)"
| "float_key (Float x) = (1, x)"
| "float_key PosInf = (2, 0)"
| "float_key NaN = (3, 0)"

subsection \<open>One iteration of the \<open>heapify_down\<close> loop\<close>

text \<open>
  The body of the \<open>while\<close> loop of \<open>heapify_down\<close>, run once at \<open>index\<close>:
  \<open>None\<close> when the loop is left (no left child, or the \<open>break\<close>), otherwise the
  list after the swap and the next value of \<open>index\<close>. \<open>heapify_down_fuel n\<close> runs at most
  \<open>n\<close> loop tests and is \<open>None\<close> when the loop has not been left by then.
\<close>

definition heapify_down_step ::
    "('k::ord, 'a) heap \<Rightarrow> nat \<Rightarrow> (('k, 'a) heap \<times> nat) option" where
  "heapify_down_step heap index =
     (if has_left_child heap index
      then (if fst (heap ! index) < fst (heap ! smaller_child_index heap index)
            then None
            else Some (swap_heap heap index (smaller_child_index heap index),
                       smaller_child_index heap index))
      else None)"

fun heapify_down_fuel :: "nat \<Rightarrow> ('k::ord, 'a) heap \<Rightarrow> nat \<Rightarrow> ('k, 'a) heap option" where
  "heapify_down_fuel 0 heap index = None"
| "heapify_down_fuel (Suc n) heap index =
     (case heapify_down_step heap index of
        None \<Rightarrow> Some heap
      | Some (heap', index') \<Rightarrow> heapify_down_fuel n heap' index')"

subsection \<open>Heap property and sequences of calls\<close>

text \<open>
  \<open>heap_property\<close> is the property in child form: every node that has a left (right)
  child has a score no larger than that child's. \<open>heap_ok\<close> is the same property read
  from the child to its parent. \<open>up_inv\<close> and \<open>down_inv\<close> are the loop invariants of
  \<open>heapify_up\<close> and \<open>heapify_down\<close>: the property holds except at the moving node,
  whose neighbours above and below are already in order with each other.
\<close>

definition heap_property :: "('k::ord, 'a) heap \<Rightarrow> bool" where
  "heap_property heap =
     (\<forall>index \<in> {0..<length heap}.
        (has_left_child heap index \<longrightarrow> fst (heap ! index) \<le> fst (left_child heap index)) \<and>
        (has_right_child heap index \<longrightarrow> fst (heap ! index) \<le> fst (right_child heap index)))"

definition heap_ok :: "('k::ord, 'a) heap \<Rightarrow> bool" where
  "heap_ok heap =
     (\<forall>j<length heap. 0 < j \<longrightarrow> fst (heap ! ((j - 1) div 2)) \<le> fst (heap ! j))"

definition up_inv :: "('k::ord, 'a) heap \<Rightarrow> nat \<Rightarrow> bool" where
  "up_inv heap i =
     (i < length heap \<and>
      (\<forall>j<length heap. 0 < j \<and> j \<noteq> i \<longrightarrow>
           fst (heap ! ((j - 1) div 2)) \<le> fst (heap ! j)) \<and>
      (\<forall>j<length heap. 0 < j \<and> 0 < i \<and> (j - 1) div 2 = i \<longrightarrow>
           fst (heap ! ((i - 1) div 2)) \<le> fst (heap ! j)))"

definition down_inv :: "('k::ord, 'a) heap \<Rightarrow> nat \<Rightarrow> bool" where
  "down_inv heap i =
     (i < length heap \<and>
      (\<forall>j<length heap. 0 < j \<and> (j - 1) div 2 \<noteq> i \<longrightarrow>
           fst (heap ! ((j - 1) div 2)) \<le> fst (heap ! j)) \<and>
      (\<forall>j<length heap. 0 < j \<and> 0 < i \<and> (j - 1) div 2 = i \<longrightarrow>
           fst (heap ! ((i - 1) div 2)) \<le> fst (heap ! j)))"

text \<open>
  A client of a \<open>MinHeap()\<close> object makes a sequence of \<open>insert\<close> and \<open>extract_min\<close>
  calls on it, starting from the empty list of \<open>__init__\<close>.
\<close>

datatype ('k, 'a) heap_call = Insert "'k \<times> 'a" | ExtractMin

fun apply_call :: "('k::ord, 'a) heap \<Rightarrow> ('k, 'a) heap_call \<Rightarrow> ('k, 'a) heap" where
  "apply_call heap (Insert item) = insert_heap heap item"
| "apply_call heap ExtractMin = snd (extract_min heap)"

definition run_calls :: "('k::ord, 'a) heap_call list \<Rightarrow> ('k, 'a) heap" where
  "run_calls calls = foldl apply_call [] calls"

text \<open>
  \<open>score_embedding S emb\<close>: on the scores in \<open>S\<close>, \<open><\<close> and \<open><=\<close> are those of a
  linear order, read through \<open>emb\<close>. \<open>embed_heap\<close> and \<open>embed_call\<close> apply \<open>emb\<close> to
  the scores of a list and of a call.
\<close>

definition score_embedding :: "'f::ord set \<Rightarrow> ('f \<Rightarrow> 'k::linorder) \<Rightarrow> bool" where
  "score_embedding S emb =
     (\<forall>a \<in> S. \<forall>b \<in> S. (a < b) = (emb a < emb b) \<and> (a \<le> b) = (emb a \<le> emb b))"

definition embed_item :: "('f \<Rightarrow> 'k) \<Rightarrow> 'f \<times> 'a \<Rightarrow> 'k \<times> 'a" where
  "embed_item emb item = (emb (fst item), snd item)"

definition embed_heap :: "('f \<Rightarrow> 'k) \<Rightarrow> ('f, 'a) heap \<Rightarrow> ('k, 'a) heap" where
  "embed_heap emb heap = map (embed_item emb) heap"

fun embed_call :: "('f \<Rightarrow> 'k) \<Rightarrow> ('f, 'a) heap_call \<Rightarrow> ('k, 'a) heap_call" where
  "embed_call emb (Insert item) = Insert (embed_item emb item)"
| "embed_call emb ExtractMin = ExtractMin"


section \<open>Sessions and join requests (fitness\_sessions/models.py, views.py)\<close>

text \<open>
  The database is a record of tables, each table the list of its rows. Of a row, the
  fields that the admission code reads or writes are kept: the primary key, the foreign
  keys, \<open>capacity\<close>, \<open>timestamp\<close>, \<open>processed\<close> and \<open>success\<close>; users and sessions are
  named by their primary keys. An exception that leaves a view is the \<open>Some\<close> of an
  error next to the database as it is at that moment (every \<open>save\<close> and \<open>create\<close> is
  committed when it is made).
\<close>

datatype error = DoesNotExist | MultipleObjectsReturned | IntegrityError | AttributeError

record session =
  session_id :: nat
  capacity :: int

record session_participant =
  sp_session :: nat
  sp_user :: nat

record join_request =
  jr_id :: nat
  jr_session :: nat
  jr_user :: nat
  jr_timestamp :: int
  processed :: bool
  success :: bool

record database =
  sessions :: "session list"
  participants :: "session_participant list"
  join_requests :: "join_request list"

text \<open>\<open>Session.objects.get(id=session_id)\<close>; \<open>None\<close> stands for \<open>Session.DoesNotExist\<close>.\<close>

definition get_session :: "database \<Rightarrow> nat \<Rightarrow> session option" where
  "get_session db sid = find (\<lambda>s. session_id s = sid) (sessions db)"

definition get_current_participants_count :: "session \<Rightarrow> database \<Rightarrow> nat" where
  "get_current_participants_count session db =
     length (filter (\<lambda>p. sp_session p = session_id session) (participants db))"

definition is_full :: "session \<Rightarrow> database \<Rightarrow> bool" where
  "is_full session db = (int (get_current_participants_count session db) \<ge> capacity session)"

definition has_user_joined :: "session \<Rightarrow> nat \<Rightarrow> database \<Rightarrow> bool" where
  "has_user_joined session user db =
     (filter (\<lambda>p. sp_session p = session_id session \<and> sp_user p = user) (participants db) \<noteq> [])"

text \<open>
  \<open>SessionParticipant.objects.create(session=..., user=...)\<close>: the table is
  \<open>unique_together = ('session', 'user')\<close>, so a second row for the same pair raises
  \<open>IntegrityError\<close> and inserts nothing.
\<close>

definition create_participant :: "session \<Rightarrow> nat \<Rightarrow> database \<Rightarrow> error + database" where
  "create_participant session user db =
     (if has_user_joined session user db then Inl IntegrityError
      else Inr (db\<lparr>participants :=
                  participants db @ [\<lparr>sp_session = session_id session, sp_user = user\<rparr>]\<rparr>))"

text \<open>\<open>current_request.save()\<close>: the row with the object's primary key takes its fields.\<close>

definition save_request :: "join_request \<Rightarrow> database \<Rightarrow> database" where
  "save_request r db =
     db\<lparr>join_requests := map (\<lambda>x. if jr_id x = jr_id r then r else x) (join_requests db)\<rparr>"

text \<open>
  \<open>JoinRequestQueue.objects.filter(session=session, processed=False).order_by('timestamp')\<close>.
  Rows with equal timestamps come in the order of the table.
\<close>

definition pending_requests :: "session \<Rightarrow> database \<Rightarrow> join_request list" where
  "pending_requests session db =
     sort_key jr_timestamp
       (filter (\<lambda>r. jr_session r = session_id session \<and> \<not> processed r) (join_requests db))"

text \<open>
  The \<open>while not queue.is_empty()\<close> loop of \<open>process_join_queue\<close>. A \<open>None\<close> from
  \<open>dequeue\<close> would raise \<open>AttributeError\<close> at \<open>current_request.user\<close>.
\<close>

function process_queue ::
    "session \<Rightarrow> join_request queue \<Rightarrow> database \<Rightarrow> error option \<times> database" where
  "process_queue session queue db =
     (if \<not> is_empty_queue queue
      then (case dequeue queue of
              (None, queue') \<Rightarrow> (Some AttributeError, db)
            | (Some current_request, queue') \<Rightarrow>
                (let current_count = get_current_participants_count session db
                 in if int current_count < capacity session
                    then (case create_participant session (jr_user current_request) db of
                            Inl e \<Rightarrow> (Some e, db)
                          | Inr db1 \<Rightarrow>
                              process_queue session queue'
                                (save_request
                                   (current_request\<lparr>processed := True, success := True\<rparr>) db1))
                    else (None,
                          save_request
                            (current_request\<lparr>processed := True, success := False\<rparr>) db)))
      else (None, db))"
  by pat_completeness auto
termination
  by (relation "measure (\<lambda>(session, queue, db). length queue)")
     (auto simp: dequeue_def is_empty_queue_def split: if_splits)

declare process_queue.simps [simp del]

definition process_join_queue :: "nat \<Rightarrow> database \<Rightarrow> error option \<times> database" where
  "process_join_queue sid db =
     (case get_session db sid of
        None \<Rightarrow> (Some DoesNotExist, db)
      | Some session \<Rightarrow>
          (let queue = foldl (\<lambda>queue request. enqueue queue (Some request)) []
                         (pending_requests session db)
           in process_queue session queue db))"

text \<open>
  The views that change the tables. \<open>join_session\<close> creates the request row (the next
  primary key, the time \<open>now\<close> of \<open>auto_now_add\<close>) and runs a pass; \<open>get_object_or_404\<close>
  and the already-joined check leave the tables as they are. \<open>leave_session\<close> deletes the
  participant row that \<open>objects.get\<close> finds; \<open>get\<close> raises when there is none, or more
  than one.
\<close>

definition join_session :: "nat \<Rightarrow> nat \<Rightarrow> int \<Rightarrow> database \<Rightarrow> error option \<times> database" where
  "join_session sid user now db =
     (case get_session db sid of
        None \<Rightarrow> (None, db)
      | Some session \<Rightarrow>
          if has_user_joined session user db then (None, db)
          else (let join_request = \<lparr>jr_id = Suc (fold max (map jr_id (join_requests db)) 0),
                                      jr_session = session_id session, jr_user = user,
                                      jr_timestamp = now, processed = False, success = False\<rparr>
                in process_join_queue (session_id session)
                     (db\<lparr>join_requests := join_requests db @ [join_request]\<rparr>)))"

definition leave_session :: "nat \<Rightarrow> nat \<Rightarrow> database \<Rightarrow> error option \<times> database" where
  "leave_session sid user db =
     (case get_session db sid of
        None \<Rightarrow> (None, db)
      | Some session \<Rightarrow>
          (let found = filter (\<lambda>p. sp_session p = session_id session \<and> sp_user p = user)
                         (participants db)
           in if length found = 1
              then (None, db\<lparr>participants :=
                             filter (\<lambda>p. \<not> (sp_session p = session_id session \<and> sp_user p = user))
                               (participants db)\<rparr>)
              else if found = [] then (None, db)
              else (Some MultipleObjectsReturned, db)))"

datatype event = Pass nat | Join nat nat int | Leave nat nat

fun apply_event :: "database \<Rightarrow> event \<Rightarrow> database" where
  "apply_event db (Pass sid) = snd (process_join_queue sid db)"
| "apply_event db (Join sid user now) = snd (join_session sid user now db)"
| "apply_event db (Leave sid user) = snd (leave_session sid user db)"

definition run_events :: "event list \<Rightarrow> database \<Rightarrow> database" where
  "run_events events db = foldl apply_event db events"

text \<open>
  The rows of the request table after a pass that admitted the requests \<open>admitted\<close> and
  refused \<open>refused\<close>, if any: told apart by primary key.
\<close>

definition mark_request :: "join_request list \<Rightarrow> join_request option \<Rightarrow> join_request \<Rightarrow> join_request" where
  "mark_request admitted refused x =
     (if jr_id x \<in> jr_id ` set admitted then x\<lparr>processed := True, success := True\<rparr>
      else if map_option jr_id refused = Some (jr_id x)
           then x\<lparr>processed := True, success := False\<rparr>
      else x)"

text \<open>
  Example data: a session of capacity 2 with four pending requests of four users, and the
  same session with three pending requests, the first two of the same user.
\<close>

definition example_session :: session where
  "example_session = \<lparr>session_id = 1, capacity = 2\<rparr>"

definition example_requests :: "join_request list" where
  "example_requests =
     [\<lparr>jr_id = 1, jr_session = 1, jr_user = 10, jr_timestamp = 1, processed = False, success = False\<rparr>,
      \<lparr>jr_id = 2, jr_session = 1, jr_user = 11, jr_timestamp = 2, processed = False, success = False\<rparr>,
      \<lparr>jr_id = 3, jr_session = 1, jr_user = 12, jr_timestamp = 3, processed = False, success = False\<rparr>,
      \<lparr>jr_id = 4, jr_session = 1, jr_user = 13, jr_timestamp = 4, processed = False, success = False\<rparr>]"

definition example_db :: database where
  "example_db = \<lparr>sessions = [example_session], participants = [],
                  join_requests = example_requests\<rparr>"

definition repeated_user_db :: database where
  "repeated_user_db =
     \<lparr>sessions = [example_session], participants = [],
      join_requests =
        [\<lparr>jr_id = 1, jr_session = 1, jr_user = 10, jr_timestamp = 1, processed = False, success = False\<rparr>,
         \<lparr>jr_id = 2, jr_session = 1, jr_user = 10, jr_timestamp = 2, processed = False, success = False\<rparr>,
         \<lparr>jr_id = 3, jr_session = 1, jr_user = 11, jr_timestamp = 3, processed = False, success = False\<rparr>]\<rparr>"

section \<open>Trainer bookings (trainer\_bookings/models.py, views.py)\<close>

text \<open>
  The booking table is the list of its rows, in the order in which the database yields
  rows that an \<open>ORDER BY\<close> does not tell apart. A date is a day number and a time of
  day a number of microseconds: the pass only compares them for equality.
  \<open>priority_score\<close> is the \<open>FloatField\<close>, a real number here. \<open>notes\<close> is never read
  by the pass and is left out.
\<close>

datatype status = Pending | Confirmed | Rejected | Completed | Cancelled

record trainer_booking =
  b_id :: nat
  client :: nat
  trainer :: nat
  requested_date :: int
  requested_time :: int
  duration_minutes :: int
  priority_score :: real
  status :: status
  created_at :: int
  processed_at :: "int option"

type_synonym booking_table = "trainer_booking list"

text \<open>\<open>TrainerBooking.objects.get(id=...)\<close>, to read a row back.\<close>

definition get_booking :: "booking_table \<Rightarrow> nat \<Rightarrow> trainer_booking option" where
  "get_booking db bid = find (\<lambda>b. b_id b = bid) db"

text \<open>\<open>booking.save()\<close>: the row with the object's primary key takes its fields.\<close>

definition save_booking :: "trainer_booking \<Rightarrow> booking_table \<Rightarrow> booking_table" where
  "save_booking booking db = map (\<lambda>x. if b_id x = b_id booking then booking else x) db"

text \<open>
  \<open>TrainerBooking.objects.filter(trainer_id=trainer_id, status='pending')
  .order_by('priority_score')\<close>. The explicit \<open>order_by\<close> replaces the \<open>ordering\<close> of
  \<open>Meta\<close>, so \<open>created_at\<close> is no part of the order; rows with equal scores come in
  the order of the table.
\<close>

definition pending_bookings :: "nat \<Rightarrow> booking_table \<Rightarrow> trainer_booking list" where
  "pending_bookings trainer_id db =
     sort_key priority_score (filter (\<lambda>b. trainer b = trainer_id \<and> status b = Pending) db)"

text \<open>
  The inner loop over \<open>confirmed_times\<close>, a list of \<open>{'date': ..., 'time': ...}\<close>
  dictionaries, here pairs.
\<close>

fun has_conflict :: "trainer_booking \<Rightarrow> (int \<times> int) list \<Rightarrow> bool" where
  "has_conflict booking [] = False"
| "has_conflict booking (confirmed_time # confirmed_times) =
     (if requested_date booking = fst confirmed_time \<and>
         requested_time booking = snd confirmed_time
      then True
      else has_conflict booking confirmed_times)"

text \<open>
  The loop \<open>for booking in pending_bookings\<close>, with its variables \<open>confirmed_times\<close>
  and \<open>processed_count\<close>. \<open>now k\<close> is what \<open>datetime.now()\<close> returns at its call
  number \<open>k\<close> of the pass; there is one call for each booking.
\<close>

fun process_bookings ::
    "(nat \<Rightarrow> int) \<Rightarrow> trainer_booking list \<Rightarrow> (int \<times> int) list \<Rightarrow> nat \<Rightarrow> booking_table
       \<Rightarrow> nat \<times> booking_table" where
  "process_bookings now [] confirmed_times processed_count db = (processed_count, db)"
| "process_bookings now (booking # bookings) confirmed_times processed_count db =
     (if \<not> has_conflict booking confirmed_times
      then process_bookings now bookings
             (confirmed_times @ [(requested_date booking, requested_time booking)])
             (processed_count + 1)
             (save_booking
                (booking\<lparr>status := Confirmed, processed_at := Some (now processed_count)\<rparr>) db)
      else process_bookings now bookings confirmed_times (processed_count + 1)
             (save_booking
                (booking\<lparr>status := Rejected, processed_at := Some (now processed_count)\<rparr>) db))"

definition process_booking_queue ::
    "(nat \<Rightarrow> int) \<Rightarrow> nat \<Rightarrow> booking_table \<Rightarrow> nat \<times> booking_table" where
  "process_booking_queue now trainer_id db =
     (if length (pending_bookings trainer_id db) = 0 then (0, db)
      else process_bookings now (pending_bookings trainer_id db) [] 0 db)"

text \<open>The slot of a booking, and what a pass makes of the booking at place \<open>k\<close> of its order.\<close>

definition slot :: "trainer_booking \<Rightarrow> int \<times> int" where
  "slot b = (requested_date b, requested_time b)"

definition resolved :: "(nat \<Rightarrow> int) \<Rightarrow> trainer_booking list \<Rightarrow> nat \<Rightarrow> trainer_booking" where
  "resolved now bookings k =
     (bookings ! k)\<lparr>status := (if slot (bookings ! k) \<in> slot ` set (take k bookings)
                                then Rejected else Confirmed),
                    processed_at := Some (now k)\<rparr>"

text \<open>
  Example data: bookings of trainer 7; \<open>booking_a\<close> and \<open>booking_b\<close> ask for the same
  slot, \<open>booking_c\<close> for a later one; \<open>booking_late\<close> and \<open>booking_early\<close> ask for one
  slot and differ in \<open>created_at\<close>.
\<close>

definition booking_a :: trainer_booking where
  "booking_a = \<lparr>b_id = 1, client = 20, trainer = 7, requested_date = 19723, requested_time = 9,
       duration_minutes = 60, priority_score = 100, status = Pending, created_at = 1,
       processed_at = None\<rparr>"

definition booking_b :: trainer_booking where
  "booking_b = \<lparr>b_id = 2, client = 21, trainer = 7, requested_date = 19723, requested_time = 9,
       duration_minutes = 60, priority_score = 200, status = Pending, created_at = 2,
       processed_at = None\<rparr>"

definition booking_c :: trainer_booking where
  "booking_c = \<lparr>b_id = 3, client = 22, trainer = 7, requested_date = 19723, requested_time = 10,
       duration_minutes = 60, priority_score = 150, status = Pending, created_at = 3,
       processed_at = None\<rparr>"

definition booking_late :: trainer_booking where
  "booking_late = \<lparr>b_id = 1, client = 20, trainer = 7, requested_date = 19723, requested_time = 9,
       duration_minutes = 60, priority_score = 100, status = Pending, created_at = 20,
       processed_at = None\<rparr>"

definition booking_early :: trainer_booking where
  "booking_early = \<lparr>b_id = 2, client = 21, trainer = 7, requested_date = 19723, requested_time = 9,
       duration_minutes = 60, priority_score = 100, status = Pending, created_at = 10,
       processed_at = None\<rparr>"


section \<open>Properties of the containers\<close>

lemma has_parent_iff: "has_parent index \<longleftrightarrow> 0 < index"
  by (auto simp: has_parent_def get_parent_index_def)

lemma nat_get_parent_index: "nat (get_parent_index index) = (index - 1) div 2"
  by (cases index) (auto simp: get_parent_index_def nat_div_distrib)

lemma heapify_up_cond:
  "(has_parent index \<and> fst (heap ! index) < fst (parent heap index)) =
     (0 < index \<and> fst (heap ! index) < fst (heap ! ((index - 1) div 2)))"
proof (cases "0 < index")
  case True
  then have "\<not> get_parent_index index < 0" by (simp add: get_parent_index_def)
  then show ?thesis using True by (simp add: has_parent_iff parent_def nat_get_parent_index)
next
  case False
  then show ?thesis by (simp add: has_parent_iff)
qed

lemma up_inv_stop:
  fixes heap :: "('k::linorder, 'a) heap"
  assumes "up_inv heap i" "\<not> (0 < i \<and> fst (heap ! i) < fst (heap ! ((i - 1) div 2)))"
  shows "heap_ok heap"
  unfolding heap_ok_def
proof (intro allI impI)
  fix j assume j: "j < length heap" "0 < j"
  show "fst (heap ! ((j - 1) div 2)) \<le> fst (heap ! j)"
  proof (cases "j = i")
    case True
    with assms(2) j show ?thesis by auto
  next
    case False
    with assms(1) j show ?thesis by (auto simp: up_inv_def)
  qed
qed

lemma up_inv_step:
  fixes heap :: "('k::linorder, 'a) heap"
  assumes inv: "up_inv heap i" and pos: "0 < i"
    and lt: "fst (heap ! i) < fst (heap ! ((i - 1) div 2))"
  shows "up_inv (swap_heap heap i ((i - 1) div 2)) ((i - 1) div 2)"
proof -
  define p where "p = (i - 1) div 2"
  define h' where "h' = swap_heap heap i p"
  have il: "i < length heap" using inv by (simp add: up_inv_def)
  have pi: "p < i" using pos by (simp add: p_def)
  have pl: "p < length heap" using pi il by simp
  have len: "length h' = length heap" by (simp add: h'_def swap_heap_def)
  have h'i: "h' ! i = heap ! p" using il pi by (simp add: h'_def swap_heap_def)
  have h'p: "h' ! p = heap ! i" using il pl pi by (simp add: h'_def swap_heap_def)
  have h'o: "\<And>j. j \<noteq> i \<Longrightarrow> j \<noteq> p \<Longrightarrow> h' ! j = heap ! j"
    by (simp add: h'_def swap_heap_def)
  have A: "\<And>j. j < length heap \<Longrightarrow> 0 < j \<Longrightarrow> j \<noteq> i \<Longrightarrow> fst (heap ! ((j - 1) div 2)) \<le> fst (heap ! j)"
    using inv by (simp add: up_inv_def)
  have B: "\<And>j. j < length heap \<Longrightarrow> 0 < j \<Longrightarrow> (j - 1) div 2 = i \<Longrightarrow> fst (heap ! p) \<le> fst (heap ! j)"
    using inv pos by (simp add: up_inv_def p_def)
  have C1: "fst (h' ! ((j - 1) div 2)) \<le> fst (h' ! j)" if j: "j < length heap" "0 < j" "j \<noteq> p" for j
  proof (cases "j = i")
    case True
    then show ?thesis using h'i h'p lt p_def by simp
  next
    case ji: False
    have hj: "h' ! j = heap ! j" using ji j h'o by simp
    consider "(j - 1) div 2 = i" | "(j - 1) div 2 = p" | "(j - 1) div 2 \<noteq> i" "(j - 1) div 2 \<noteq> p" by blast
    then show ?thesis
    proof cases
      case 1
      then show ?thesis using B[OF j(1) j(2)] h'i hj by simp
    next
      case 2
      have "fst (heap ! i) \<le> fst (heap ! p)" using lt p_def by simp
      moreover have "fst (heap ! p) \<le> fst (heap ! j)" using A[OF j(1) j(2) ji] 2 by simp
      ultimately show ?thesis using 2 h'p hj by simp
    next
      case 3
      then show ?thesis using A[OF j(1) j(2) ji] h'o hj by simp
    qed
  qed
  have C2: "fst (h' ! ((p - 1) div 2)) \<le> fst (h' ! j)"
    if j: "j < length heap" "0 < j" "0 < p" "(j - 1) div 2 = p" for j
  proof -
    have ppp: "(p - 1) div 2 < p" using j(3) by arith
    have pp: "h' ! ((p - 1) div 2) = heap ! ((p - 1) div 2)"
      using ppp pi by (intro h'o) auto
    have pple: "fst (heap ! ((p - 1) div 2)) \<le> fst (heap ! p)"
      using A[OF pl j(3)] pi by simp
    have jp: "j \<noteq> p" using j by arith
    show ?thesis
    proof (cases "j = i")
      case True
      then show ?thesis using pp pple h'i by simp
    next
      case False
      then have "fst (heap ! p) \<le> fst (heap ! j)" using A[OF j(1) j(2)] j(4) by simp
      then show ?thesis using pp pple h'o[OF False jp] by simp
    qed
  qed
  show ?thesis
    unfolding up_inv_def p_def[symmetric] h'_def[symmetric]
    using pl len C1 C2 by auto
qed

lemma heapify_up_ok:
  fixes heap :: "('k::linorder, 'a) heap"
  shows "up_inv heap index \<Longrightarrow> heap_ok (heapify_up heap index)"
proof (induction heap index rule: heapify_up.induct)
  case (1 heap index)
  show ?case
  proof (cases "has_parent index \<and> fst (heap ! index) < fst (parent heap index)")
    case True
    then have "up_inv (swap_heap heap index ((index - 1) div 2)) ((index - 1) div 2)"
      using up_inv_step[OF "1.prems"] by (simp add: heapify_up_cond nat_get_parent_index)
    then show ?thesis using True "1.IH"
      by (subst heapify_up.simps) (simp add: nat_get_parent_index)
  next
    case False
    then show ?thesis using up_inv_stop[OF "1.prems"]
      by (subst heapify_up.simps) (auto simp add: heapify_up_cond nat_get_parent_index)
  qed
qed

lemma length_heapify_up: "length (heapify_up heap index) = length heap"
  by (induction heap index rule: heapify_up.induct)
     (subst heapify_up.simps, simp add: swap_heap_def)

lemma insert_heap_ok:
  fixes heap :: "('k::linorder, 'a) heap"
  assumes "heap_ok heap"
  shows "heap_ok (insert_heap heap item)"
proof -
  have "up_inv (heap @ [item]) (length heap)"
    unfolding up_inv_def
  proof (intro conjI allI impI)
    show "length heap < length (heap @ [item])" by simp
  next
    fix j assume "j < length (heap @ [item])" "0 < j \<and> j \<noteq> length heap"
    then have j: "j < length heap" "0 < j" by auto
    then have "(j - 1) div 2 < length heap" by arith
    then show "fst ((heap @ [item]) ! ((j - 1) div 2)) \<le> fst ((heap @ [item]) ! j)"
      using assms j by (simp add: nth_append heap_ok_def)
  next
    fix j assume "j < length (heap @ [item])" "0 < j \<and> 0 < length heap \<and> (j - 1) div 2 = length heap"
    then have "j < Suc (length heap)" "(j - 1) div 2 = length heap" "0 < length heap" by auto
    then have False by arith
    then show "fst ((heap @ [item]) ! ((length heap - 1) div 2)) \<le> fst ((heap @ [item]) ! j)" ..
  qed
  then show ?thesis by (simp add: insert_heap_def heapify_up_ok)
qed

lemma child_cases: "0 < j \<Longrightarrow> (j - 1) div 2 = i \<Longrightarrow> j = 2 * i + 1 \<or> j = 2 * i + (2::nat)"
  by arith

lemma smaller_child_cases:
  "smaller_child_index heap i = 2 * i + 1 \<or> smaller_child_index heap i = 2 * i + 2"
  by (simp add: smaller_child_index_def get_left_child_index_def get_right_child_index_def)

lemma smaller_child_bound:
  "has_left_child heap i \<Longrightarrow> smaller_child_index heap i < length heap"
  by (simp add: smaller_child_index_def has_left_child_def has_right_child_def)

lemma smaller_child_le:
  fixes heap :: "('k::linorder, 'a) heap"
  assumes "has_left_child heap i" "j < length heap" "0 < j" "(j - 1) div 2 = i"
  shows "fst (heap ! smaller_child_index heap i) \<le> fst (heap ! j)"
proof -
  from child_cases[OF assms(3,4)] show ?thesis
  proof
    assume "j = 2 * i + 1"
    then show ?thesis
      by (auto simp: smaller_child_index_def left_child_def right_child_def
          get_left_child_index_def get_right_child_index_def)
  next
    assume "j = 2 * i + 2"
    then show ?thesis using assms(2)
      by (auto simp: smaller_child_index_def left_child_def right_child_def has_right_child_def
          get_left_child_index_def get_right_child_index_def)
  qed
qed

lemma down_inv_leaf:
  assumes "down_inv heap i" "\<not> has_left_child heap i"
  shows "heap_ok heap"
  unfolding heap_ok_def
proof (intro allI impI)
  fix j assume j: "j < length heap" "0 < j"
  have "(j - 1) div 2 \<noteq> i"
  proof
    assume "(j - 1) div 2 = i"
    from child_cases[OF j(2) this] j(1) assms(2) show False
      by (auto simp: has_left_child_def get_left_child_index_def)
  qed
  then show "fst (heap ! ((j - 1) div 2)) \<le> fst (heap ! j)"
    using assms(1) j by (simp add: down_inv_def)
qed

lemma down_inv_stop:
  fixes heap :: "('k::linorder, 'a) heap"
  assumes "down_inv heap i" "has_left_child heap i"
    "fst (heap ! i) < fst (heap ! smaller_child_index heap i)"
  shows "heap_ok heap"
  unfolding heap_ok_def
proof (intro allI impI)
  fix j assume j: "j < length heap" "0 < j"
  show "fst (heap ! ((j - 1) div 2)) \<le> fst (heap ! j)"
  proof (cases "(j - 1) div 2 = i")
    case True
    from smaller_child_le[OF assms(2) j True] assms(3) True show ?thesis by simp
  next
    case False
    then show ?thesis using assms(1) j by (simp add: down_inv_def)
  qed
qed

lemma down_inv_step:
  fixes heap :: "('k::linorder, 'a) heap"
  assumes inv: "down_inv heap i" and lc: "has_left_child heap i"
    and ge: "\<not> fst (heap ! i) < fst (heap ! smaller_child_index heap i)"
  shows "down_inv (swap_heap heap i (smaller_child_index heap i)) (smaller_child_index heap i)"
proof -
  define c where "c = smaller_child_index heap i"
  define h' where "h' = swap_heap heap i c"
  have cl: "c < length heap" using smaller_child_bound[OF lc] by (simp add: c_def)
  have cc: "c = 2 * i + 1 \<or> c = 2 * i + 2" using smaller_child_cases[of heap i] by (simp add: c_def)
  have ic: "i < c" using cc by arith
  have pc: "(c - 1) div 2 = i" using cc by arith
  have il: "i < length heap" using ic cl by simp
  have len: "length h' = length heap" by (simp add: h'_def swap_heap_def)
  have h'i: "h' ! i = heap ! c" using il cl ic by (simp add: h'_def swap_heap_def)
  have h'c: "h' ! c = heap ! i" using il cl ic by (simp add: h'_def swap_heap_def)
  have h'o: "\<And>j. j \<noteq> i \<Longrightarrow> j \<noteq> c \<Longrightarrow> h' ! j = heap ! j"
    by (simp add: h'_def swap_heap_def)
  have cle: "fst (heap ! c) \<le> fst (heap ! i)" using ge by (simp add: c_def)
  have A: "\<And>j. j < length heap \<Longrightarrow> 0 < j \<Longrightarrow> (j - 1) div 2 \<noteq> i \<Longrightarrow> fst (heap ! ((j - 1) div 2)) \<le> fst (heap ! j)"
    using inv by (simp add: down_inv_def)
  have B: "\<And>j. j < length heap \<Longrightarrow> 0 < j \<Longrightarrow> 0 < i \<Longrightarrow> (j - 1) div 2 = i \<Longrightarrow> fst (heap ! ((i - 1) div 2)) \<le> fst (heap ! j)"
    using inv by (simp add: down_inv_def)
  have S: "\<And>j. j < length heap \<Longrightarrow> 0 < j \<Longrightarrow> (j - 1) div 2 = i \<Longrightarrow> fst (heap ! c) \<le> fst (heap ! j)"
    using smaller_child_le[OF lc] by (simp add: c_def)
  have C1: "fst (h' ! ((j - 1) div 2)) \<le> fst (h' ! j)"
    if j: "j < length heap" "0 < j" "(j - 1) div 2 \<noteq> c" for j
  proof -
    consider "j = c" | "j = i" | "j \<noteq> c" "j \<noteq> i" "(j - 1) div 2 = i" | "j \<noteq> c" "j \<noteq> i" "(j - 1) div 2 \<noteq> i"
      by blast
    then show ?thesis
    proof cases
      case 1
      then show ?thesis using pc h'i h'c cle by simp
    next
      case 2
      then have ipos: "0 < i" using j by simp
      have "(i - 1) div 2 < i" using ipos by arith
      then have "h' ! ((i - 1) div 2) = heap ! ((i - 1) div 2)" using ic by (intro h'o) auto
      moreover have "fst (heap ! ((i - 1) div 2)) \<le> fst (heap ! c)"
        using B[OF cl _ ipos pc] ic by simp
      ultimately show ?thesis using 2 h'i by simp
    next
      case 3
      then show ?thesis using S[OF j(1) j(2)] h'i h'o by simp
    next
      case 4
      then show ?thesis using A[OF j(1) j(2)] j(3) h'o by simp
    qed
  qed
  have C2: "fst (h' ! ((c - 1) div 2)) \<le> fst (h' ! j)"
    if j: "j < length heap" "0 < j" "(j - 1) div 2 = c" for j
  proof -
    have "c < j" using j by arith
    then have jn: "j \<noteq> i" "j \<noteq> c" using ic by auto
    have "(j - 1) div 2 \<noteq> i" using j ic by simp
    then have "fst (heap ! c) \<le> fst (heap ! j)" using A[OF j(1) j(2)] j(3) by simp
    then show ?thesis using pc h'i h'o[OF jn] by simp
  qed
  show ?thesis
    unfolding down_inv_def c_def[symmetric] h'_def[symmetric]
    using cl len C1 C2 by auto
qed

lemma heapify_down_ok:
  fixes heap :: "('k::linorder, 'a) heap"
  shows "down_inv heap index \<Longrightarrow> heap_ok (heapify_down heap index)"
proof (induction heap index rule: heapify_down.induct)
  case (1 heap index)
  show ?case
  proof (cases "has_left_child heap index")
    case False
    then show ?thesis using down_inv_leaf[OF "1.prems"]
      by (subst heapify_down.simps) simp
  next
    case lc: True
    show ?thesis
    proof (cases "fst (heap ! index) < fst (heap ! smaller_child_index heap index)")
      case True
      then show ?thesis using down_inv_stop[OF "1.prems" lc] lc
        by (subst heapify_down.simps) simp
    next
      case False
      from "1.IH"[OF lc False down_inv_step[OF "1.prems" lc False]] lc False
      show ?thesis by (subst heapify_down.simps) simp
    qed
  qed
qed

lemma length_heapify_down: "length (heapify_down heap index) = length heap"
  by (induction heap index rule: heapify_down.induct)
     (subst heapify_down.simps, simp add: swap_heap_def)

lemma extract_min_ok:
  fixes heap :: "('k::linorder, 'a) heap"
  assumes "heap_ok heap"
  shows "heap_ok (snd (extract_min heap))"
proof -
  define h2 where "h2 = butlast (heap[0 := heap ! (length heap - 1)])"
  have len: "length h2 = length heap - 1" by (simp add: h2_def)
  have ex: "snd (extract_min heap) =
      (if heap = [] then heap else if h2 \<noteq> [] then heapify_down h2 0 else h2)"
    unfolding extract_min_def is_empty_heap_def Let_def h2_def length_0_conv
    by (cases "heap = []"; cases "butlast (heap[0 := heap ! (length heap - 1)]) = []";
        simp only: snd_conv if_True if_False simp_thms)
  show ?thesis
  proof (cases "length heap \<le> 1")
    case True
    then have "h2 = []" using len by simp
    then show ?thesis using assms ex by (simp add: heap_ok_def)
  next
    case False
    have nth: "\<And>j. 0 < j \<Longrightarrow> j < length h2 \<Longrightarrow> h2 ! j = heap ! j"
      by (simp add: h2_def nth_butlast)
    have "down_inv h2 0"
      unfolding down_inv_def
    proof (intro conjI allI impI)
      show "0 < length h2" using False len by simp
    next
      fix j assume "j < length h2" "0 < j \<and> (j - 1) div 2 \<noteq> 0"
      then have j: "j < length h2" "0 < j" "0 < (j - 1) div 2" by auto
      then have "(j - 1) div 2 < length h2" by arith
      then show "fst (h2 ! ((j - 1) div 2)) \<le> fst (h2 ! j)"
        using j nth assms len by (simp add: heap_ok_def)
    next
      fix j assume "j < length h2" "0 < j \<and> (0::nat) < 0 \<and> (j - 1) div 2 = 0"
      then show "fst (h2 ! ((0 - 1) div 2)) \<le> fst (h2 ! j)" by simp
    qed
    then have "heap_ok (heapify_down h2 0)" by (rule heapify_down_ok)
    moreover have "h2 \<noteq> []" "heap \<noteq> []" using False len by auto
    ultimately show ?thesis using ex by simp
  qed
qed

lemma heap_ok_root_le:
  fixes heap :: "('k::linorder, 'a) heap"
  assumes "heap_ok heap"
  shows "j < length heap \<Longrightarrow> fst (heap ! 0) \<le> fst (heap ! j)"
proof (induction j rule: less_induct)
  case (less j)
  show ?case
  proof (cases "j = 0")
    case True
    then show ?thesis by simp
  next
    case False
    then have lt: "(j - 1) div 2 < j" by arith
    then have "fst (heap ! 0) \<le> fst (heap ! ((j - 1) div 2))"
      using less by simp
    moreover have "fst (heap ! ((j - 1) div 2)) \<le> fst (heap ! j)"
      using assms less.prems False by (simp add: heap_ok_def)
    ultimately show ?thesis by simp
  qed
qed

lemma heap_property_iff: "heap_property heap \<longleftrightarrow> heap_ok heap"
proof
  assume hp: "heap_property heap"
  show "heap_ok heap"
    unfolding heap_ok_def
  proof (intro allI impI)
    fix j assume j: "j < length heap" "0 < j"
    define i where "i = (j - 1) div 2"
    have il: "i < length heap" using j by (simp add: i_def)
    from child_cases[OF j(2) i_def[symmetric]] show "fst (heap ! ((j - 1) div 2)) \<le> fst (heap ! j)"
    proof
      assume "j = 2 * i + 1"
      then show ?thesis using hp il j(1)
        by (auto simp: heap_property_def has_left_child_def left_child_def
            get_left_child_index_def i_def[symmetric])
    next
      assume "j = 2 * i + 2"
      then show ?thesis using hp il j(1)
        by (auto simp: heap_property_def has_right_child_def right_child_def
            get_right_child_index_def i_def[symmetric])
    qed
  qed
next
  assume ok: "heap_ok heap"
  show "heap_property heap"
    unfolding heap_property_def
  proof (intro ballI impI conjI)
    fix index assume "index \<in> {0..<length heap}" "has_left_child heap index"
    then have "2 * index + 1 < length heap" by (simp add: has_left_child_def get_left_child_index_def)
    moreover have "(2 * index + 1 - 1) div 2 = index" by simp
    ultimately show "fst (heap ! index) \<le> fst (left_child heap index)"
      using ok unfolding heap_ok_def left_child_def get_left_child_index_def
      by (metis zero_less_one add_gr_0)
  next
    fix index assume "index \<in> {0..<length heap}" "has_right_child heap index"
    then have "2 * index + 2 < length heap" by (simp add: has_right_child_def get_right_child_index_def)
    moreover have "(2 * index + 2 - 1) div 2 = index" by arith
    ultimately show "fst (heap ! index) \<le> fst (right_child heap index)"
      using ok unfolding heap_ok_def right_child_def get_right_child_index_def
      by (metis zero_less_numeral add_gr_0)
  qed
qed

lemma mset_swap_heap:
  "i < length heap \<Longrightarrow> j < length heap \<Longrightarrow> mset (swap_heap heap i j) = mset heap"
  by (simp add: swap_heap_def mset_swap)

lemma mset_heapify_up: "index < length heap \<Longrightarrow> mset (heapify_up heap index) = mset heap"
proof (induction heap index rule: heapify_up.induct)
  case (1 heap index)
  show ?case
  proof (cases "has_parent index \<and> fst (heap ! index) < fst (parent heap index)")
    case True
    then have "0 < index" by (simp add: has_parent_iff)
    then have lt: "(index - 1) div 2 < length heap" using "1.prems" by arith
    have "mset (heapify_up heap index) =
        mset (heapify_up (swap_heap heap index ((index - 1) div 2)) ((index - 1) div 2))"
      using True by (subst heapify_up.simps) (simp add: nat_get_parent_index)
    also have "\<dots> = mset (swap_heap heap index ((index - 1) div 2))"
      using "1.IH"[OF True] lt by (simp add: nat_get_parent_index swap_heap_def)
    finally show ?thesis using mset_swap_heap[OF "1.prems" lt] by simp
  next
    case False
    then show ?thesis by (subst heapify_up.simps) auto
  qed
qed

lemma mset_insert_heap: "mset (insert_heap heap item) = add_mset item (mset heap)"
  by (simp add: insert_heap_def mset_heapify_up)

lemma mset_heapify_down: "mset (heapify_down heap index) = mset heap"
proof (induction heap index rule: heapify_down.induct)
  case (1 heap index)
  show ?case
  proof (cases "has_left_child heap index \<and>
      \<not> fst (heap ! index) < fst (heap ! smaller_child_index heap index)")
    case True
    then have lc: "has_left_child heap index"
      and ge: "\<not> fst (heap ! index) < fst (heap ! smaller_child_index heap index)" by auto
    have cl: "smaller_child_index heap index < length heap" by (rule smaller_child_bound[OF lc])
    have "index < smaller_child_index heap index"
      using smaller_child_cases[of heap index] by arith
    then have il: "index < length heap" using cl by simp
    have "mset (heapify_down heap index) =
       mset (heapify_down (swap_heap heap index (smaller_child_index heap index))
              (smaller_child_index heap index))"
      using lc ge by (subst heapify_down.simps) simp
    then show ?thesis using "1.IH"[OF lc ge] mset_swap_heap[OF il cl] by simp
  next
    case False
    then show ?thesis by (subst heapify_down.simps) auto
  qed
qed

lemma mset_extract_min:
  assumes "heap \<noteq> []"
  shows "mset heap = add_mset (heap ! 0) (mset (snd (extract_min heap)))"
proof -
  define h2 where "h2 = butlast (heap[0 := heap ! (length heap - 1)])"
  have ex: "snd (extract_min heap) =
      (if heap = [] then heap else if h2 \<noteq> [] then heapify_down h2 0 else h2)"
    unfolding extract_min_def is_empty_heap_def Let_def h2_def length_0_conv
    by (cases "heap = []"; cases "butlast (heap[0 := heap ! (length heap - 1)]) = []";
        simp only: snd_conv if_True if_False simp_thms)
  then have "mset (snd (extract_min heap)) = mset h2"
    using assms by (simp add: mset_heapify_down)
  moreover have "mset heap = add_mset (heap ! 0) (mset h2)"
  proof (cases heap)
    case Nil
    then show ?thesis using assms by simp
  next
    case (Cons x xs)
    show ?thesis
    proof (cases "xs = []")
      case True
      then show ?thesis using Cons by (simp add: h2_def)
    next
      case False
      then have "h2 = last xs # butlast xs"
        using Cons by (simp add: h2_def last_conv_nth)
      moreover have "mset (last xs # butlast xs) = mset xs"
        using False by (metis append_butlast_last_id mset.simps(2) union_mset_add_mset_right
            mset_append add.right_neutral mset.simps(1))
      ultimately show ?thesis using Cons by simp
    qed
  qed
  ultimately show ?thesis by simp
qed

lemma extract_min_fst: "heap \<noteq> [] \<Longrightarrow> fst (extract_min heap) = Some (heap ! 0)"
  by (simp add: extract_min_def is_empty_heap_def Let_def)

lemma run_calls_ok:
  fixes calls :: "('k::linorder, 'a) heap_call list"
  shows "heap_ok (run_calls calls)"
proof -
  have "heap_ok heap \<Longrightarrow> heap_ok (foldl apply_call heap calls)" for heap :: "('k, 'a) heap"
  proof (induction calls arbitrary: heap)
    case Nil
    then show ?case by simp
  next
    case (Cons c calls)
    have "heap_ok (apply_call heap c)"
      using Cons.prems by (cases c) (simp_all add: insert_heap_ok extract_min_ok)
    then show ?case using Cons.IH by simp
  qed
  moreover have "heap_ok ([] :: ('k, 'a) heap)" by (simp add: heap_ok_def)
  ultimately show ?thesis by (simp add: run_calls_def)
qed

text \<open>
  For scores of a linearly ordered type: the heap property holds after every sequence of
  calls, and \<open>extract_min\<close> returns a least element.
\<close>
lemma run_calls_valid_total_order:
  fixes calls :: "('k::linorder, 'a) heap_call list"
  shows "heap_property (run_calls (take n calls)) \<and>
     (run_calls (take n calls) \<noteq> [] \<longrightarrow>
        (\<exists>m. fst (extract_min (run_calls (take n calls))) = Some m \<and>
             m \<in> set (run_calls (take n calls)) \<and>
             (\<forall>x \<in> set (run_calls (take n calls)). fst m \<le> fst x) \<and>
             mset (run_calls (take n calls)) =
               add_mset m (mset (snd (extract_min (run_calls (take n calls)))))))"
proof -
  define heap where "heap = run_calls (take n calls)"
  have ok: "heap_ok heap" unfolding heap_def by (rule run_calls_ok)
  have "\<forall>x \<in> set heap. fst (heap ! 0) \<le> fst x"
  proof
    fix x assume "x \<in> set heap"
    then obtain i where "i < length heap" "heap ! i = x" by (auto simp: in_set_conv_nth)
    then show "fst (heap ! 0) \<le> fst x" using heap_ok_root_le[OF ok, of i] by simp
  qed
  then show ?thesis
    unfolding heap_def[symmetric]
    using ok mset_extract_min[of heap] extract_min_fst[of heap]
    by (auto simp: heap_property_iff)
qed

lemma heapify_down_unfold:
  "heapify_down heap index =
     (case heapify_down_step heap index of
        None \<Rightarrow> heap
      | Some (heap', index') \<Rightarrow> heapify_down heap' index')"
  by (subst heapify_down.simps) (simp add: heapify_down_step_def)

lemma heapify_down_step_Some:
  assumes "heapify_down_step heap index = Some (heap', index')"
  shows "index < index' \<and> index' < length heap \<and> length heap' = length heap"
proof -
  from assms have lc: "has_left_child heap index"
    and i': "index' = smaller_child_index heap index"
    and h': "heap' = swap_heap heap index index'"
    by (auto simp: heapify_down_step_def split: if_splits)
  have "index < smaller_child_index heap index"
    using smaller_child_cases[of heap index] by arith
  then show ?thesis using smaller_child_bound[OF lc] i' h' by (simp add: swap_heap_def)
qed

lemma heapify_down_fuel_enough:
  "length heap - index < n \<Longrightarrow> heapify_down_fuel n heap index = Some (heapify_down heap index)"
proof (induction n arbitrary: heap index)
  case 0
  then show ?case by simp
next
  case (Suc n)
  show ?case
  proof (cases "heapify_down_step heap index")
    case None
    then show ?thesis by (subst heapify_down_unfold) simp
  next
    case (Some p)
    obtain heap' index' where p: "p = (heap', index')" by (cases p)
    from heapify_down_step_Some[OF Some[unfolded p]] Suc.prems
    have "length heap' - index' < n" by arith
    from Suc.IH[OF this] show ?thesis using Some p
      by (subst heapify_down_unfold) simp
  qed
qed

text \<open>
  Claim C10. \<open>heapify_down\<close> and \<open>extract_min\<close> terminate on every list: an iteration of
  the loop that does not leave it moves \<open>index\<close> to a strictly larger index that is still
  inside the list, whose length is unchanged; this includes the iteration where the smaller
  child's score equals the current node's score, in which the swap is made; so the loop is
  left within \<open>length heap - index + 1\<close> loop tests, with the result of \<open>heapify_down\<close>,
  and \<open>extract_min\<close> returns.
\<close>
theorem heapify_down_terminates:
  fixes heap :: "('k::linorder, 'a) heap"
  shows "(heapify_down_step heap index = Some (heap', index') \<longrightarrow>
            index < index' \<and> index' < length heap \<and> length heap' = length heap) \<and>
         (has_left_child heap index \<and>
            fst (heap ! smaller_child_index heap index) = fst (heap ! index) \<longrightarrow>
            heapify_down_step heap index =
              Some (swap_heap heap index (smaller_child_index heap index),
                    smaller_child_index heap index)) \<and>
         heapify_down_fuel (Suc (length heap - index)) heap index = Some (heapify_down heap index) \<and>
         (\<exists>r. extract_min heap = (r, if length heap \<le> 1 then []
                  else heapify_down (butlast (heap[0 := heap ! (length heap - 1)])) 0))"
proof (intro conjI impI)
  assume "heapify_down_step heap index = Some (heap', index')"
  from heapify_down_step_Some[OF this]
  show "index < index'" "index' < length heap" "length heap' = length heap" by auto
next
  assume "has_left_child heap index \<and>
      fst (heap ! smaller_child_index heap index) = fst (heap ! index)"
  then show "heapify_down_step heap index =
      Some (swap_heap heap index (smaller_child_index heap index), smaller_child_index heap index)"
    by (simp add: heapify_down_step_def)
next
  show "heapify_down_fuel (Suc (length heap - index)) heap index = Some (heapify_down heap index)"
    by (rule heapify_down_fuel_enough) simp
next
  define h2 where "h2 = butlast (heap[0 := heap ! (length heap - 1)])"
  have len: "length h2 = length heap - 1" by (simp add: h2_def)
  have ex: "extract_min heap =
      (if heap = [] then (None, heap)
       else (Some (heap ! 0), if h2 \<noteq> [] then heapify_down h2 0 else h2))"
    unfolding extract_min_def is_empty_heap_def Let_def h2_def length_0_conv
    by (simp only: simp_thms)
  have "h2 = [] \<longleftrightarrow> length heap \<le> 1" using len by (metis length_0_conv diff_is_0_eq)
  then show "\<exists>r. extract_min heap = (r, if length heap \<le> 1 then []
      else heapify_down (butlast (heap[0 := heap ! (length heap - 1)])) 0)"
    unfolding h2_def[symmetric] using ex by (cases "heap = []") auto
qed

text \<open>The statement at a root whose smaller child has the same score.\<close>
theorem heapify_down_terminates_witness:
  "heapify_down_step [(3::nat, ''c''), (3, ''a''), (4, ''b'')] 0 =
      Some ([(3, ''a''), (3, ''c''), (4, ''b'')], 1) \<and>
   (0::nat) < 1 \<and> (1::nat) < length [(3::nat, ''c''), (3, ''a''), (4, ''b'')] \<and>
   heapify_down_fuel (Suc (length [(3::nat, ''c''), (3, ''a''), (4, ''b'')] - 0))
      [(3::nat, ''c''), (3, ''a''), (4, ''b'')] 0 =
      Some (heapify_down [(3::nat, ''c''), (3, ''a''), (4, ''b'')] 0)"
proof -
  have s: "heapify_down_step [(3::nat, ''c''), (3, ''a''), (4, ''b'')] 0 =
      Some ([(3, ''a''), (3, ''c''), (4, ''b'')], 1)"
    by code_simp
  show ?thesis
    using heapify_down_terminates [of "[(3::nat, ''c''), (3, ''a''), (4, ''b'')]" 0
        "[(3, ''a''), (3, ''c''), (4, ''b'')]" 1] s
    by simp
qed





text \<open>
  Claim C9. On an empty container, \<open>dequeue\<close>, \<open>peek\<close>, \<open>extract_min\<close> and
  \<open>get_min\<close> return \<open>None\<close> and leave the list unchanged (\<open>peek\<close> and \<open>get_min\<close>
  never write to it).
\<close>
theorem empty_container_unchanged:
  fixes heap :: "('k::ord, 'a) heap"
  shows "(is_empty_queue items \<longrightarrow> dequeue items = (None, items) \<and> peek items = None) \<and>
         (is_empty_heap heap \<longrightarrow> extract_min heap = (None, heap) \<and> get_min heap = None)"
  by (simp add: dequeue_def peek_def extract_min_def get_min_def)

text \<open>The statement at the empty queue and the empty heap.\<close>
theorem empty_container_unchanged_witness:
  "is_empty_queue ([] :: nat option list) \<and> dequeue ([] :: nat option list) = (None, []) \<and>
   peek ([] :: nat option list) = None \<and>
   is_empty_heap ([] :: (nat, string) heap) \<and>
   extract_min ([] :: (nat, string) heap) = (None, []) \<and>
   get_min ([] :: (nat, string) heap) = None"
  using empty_container_unchanged [of "[] :: nat option list" "[] :: (nat, string) heap"]
  by (simp add: is_empty_queue_def is_empty_heap_def)

subsection \<open>Scores that are linearly ordered on a part of their type\<close>

lemma length_embed_heap [simp]: "length (embed_heap emb heap) = length heap"
  by (simp add: embed_heap_def)

lemma nth_embed_heap: "i < length heap \<Longrightarrow> embed_heap emb heap ! i = embed_item emb (heap ! i)"
  by (simp add: embed_heap_def)

lemma fst_embed_item [simp]: "fst (embed_item emb item) = emb (fst item)"
  by (simp add: embed_item_def)

lemma embed_heap_Nil [simp]: "(embed_heap emb heap = []) = (heap = [])"
  by (simp add: embed_heap_def)

lemma embed_swap_heap:
  "i < length heap \<Longrightarrow> j < length heap \<Longrightarrow>
     swap_heap (embed_heap emb heap) i j = embed_heap emb (swap_heap heap i j)"
  by (simp add: embed_heap_def swap_heap_def map_update)

lemma set_swap_heap:
  "i < length heap \<Longrightarrow> j < length heap \<Longrightarrow> set (swap_heap heap i j) = set heap"
  using mset_swap_heap[of i heap j] by (metis set_mset_mset)

lemma embed_compare:
  assumes "score_embedding S emb" "fst ` set heap \<subseteq> S" "i < length heap" "j < length heap"
  shows "(fst (embed_heap emb heap ! i) < fst (embed_heap emb heap ! j)) =
           (fst (heap ! i) < fst (heap ! j))"
    and "(fst (embed_heap emb heap ! i) \<le> fst (embed_heap emb heap ! j)) =
           (fst (heap ! i) \<le> fst (heap ! j))"
proof -
  have "fst (heap ! i) \<in> S" "fst (heap ! j) \<in> S" using assms(2,3,4) by auto
  then have "(fst (heap ! i) < fst (heap ! j)) = (emb (fst (heap ! i)) < emb (fst (heap ! j)))"
    and "(fst (heap ! i) \<le> fst (heap ! j)) = (emb (fst (heap ! i)) \<le> emb (fst (heap ! j)))"
    using assms(1) unfolding score_embedding_def by blast+
  then show "(fst (embed_heap emb heap ! i) < fst (embed_heap emb heap ! j)) =
           (fst (heap ! i) < fst (heap ! j))"
    and "(fst (embed_heap emb heap ! i) \<le> fst (embed_heap emb heap ! j)) =
           (fst (heap ! i) \<le> fst (heap ! j))"
    using assms(3,4) by (simp_all add: nth_embed_heap)
qed

lemma heapify_up_swap:
  assumes "0 < index \<and> fst (heap ! index) < fst (heap ! ((index - 1) div 2))"
  shows "heapify_up heap index =
       heapify_up (swap_heap heap index ((index - 1) div 2)) ((index - 1) div 2)"
proof -
  have "has_parent index \<and> fst (heap ! index) < fst (parent heap index)"
    unfolding heapify_up_cond by (rule assms)
  then show ?thesis
    by (subst heapify_up.simps) (simp only: if_True simp_thms nat_get_parent_index)
qed

lemma heapify_up_stop:
  assumes "\<not> (0 < index \<and> fst (heap ! index) < fst (heap ! ((index - 1) div 2)))"
  shows "heapify_up heap index = heap"
proof -
  have "\<not> (has_parent index \<and> fst (heap ! index) < fst (parent heap index))"
    unfolding heapify_up_cond by (rule assms)
  then show ?thesis by (subst heapify_up.simps) (simp only: if_False simp_thms)
qed

lemma embed_heapify_up:
  fixes heap :: "('f::ord, 'a) heap" and emb :: "'f \<Rightarrow> 'k::linorder"
  assumes "score_embedding S emb"
  shows "fst ` set heap \<subseteq> S \<Longrightarrow> index < length heap \<Longrightarrow>
     heapify_up (embed_heap emb heap) index = embed_heap emb (heapify_up heap index)"
proof (induction heap index rule: heapify_up.induct)
  case (1 heap index)
  let ?p = "(index - 1) div 2"
  show ?case
  proof (cases "0 < index \<and> fst (heap ! index) < fst (heap ! ?p)")
    case True
    have p: "?p < length heap" using True "1.prems"(2) by arith
    have c: "has_parent index \<and> fst (heap ! index) < fst (parent heap index)"
      using True by (simp add: heapify_up_cond)
    have c': "0 < index \<and>
        fst (embed_heap emb heap ! index) < fst (embed_heap emb heap ! ?p)"
      using True embed_compare(1)[OF assms "1.prems"(1) "1.prems"(2) p] by simp
    have s: "fst ` set (swap_heap heap index ?p) \<subseteq> S"
      using "1.prems"(1) set_swap_heap[OF "1.prems"(2) p] by simp
    have l: "?p < length (swap_heap heap index ?p)" using p by (simp add: swap_heap_def)
    have ih: "heapify_up (embed_heap emb (swap_heap heap index ?p)) ?p =
        embed_heap emb (heapify_up (swap_heap heap index ?p) ?p)"
      using "1.IH"[OF c] s l by (simp add: nat_get_parent_index)
    have "heapify_up (embed_heap emb heap) index =
        heapify_up (swap_heap (embed_heap emb heap) index ?p) ?p"
      by (rule heapify_up_swap[OF c'])
    also have "\<dots> = embed_heap emb (heapify_up (swap_heap heap index ?p) ?p)"
      by (simp only: embed_swap_heap[OF "1.prems"(2) p] ih)
    also have "\<dots> = embed_heap emb (heapify_up heap index)"
      using heapify_up_swap[OF True] by simp
    finally show ?thesis .
  next
    case False
    have "\<not> (0 < index \<and>
        fst (embed_heap emb heap ! index) < fst (embed_heap emb heap ! ?p))"
    proof (cases "0 < index")
      case True
      then have p: "?p < length heap" using "1.prems"(2) by arith
      show ?thesis
        using False embed_compare(1)[OF assms "1.prems"(1) "1.prems"(2) p] by simp
    next
      case False
      then show ?thesis by simp
    qed
    then show ?thesis using heapify_up_stop[OF False] heapify_up_stop by simp
  qed
qed

lemma embed_smaller_child_index:
  fixes heap :: "('f::ord, 'a) heap" and emb :: "'f \<Rightarrow> 'k::linorder"
  assumes "score_embedding S emb" "fst ` set heap \<subseteq> S"
  shows "smaller_child_index (embed_heap emb heap) index = smaller_child_index heap index"
proof (cases "has_right_child heap index")
  case True
  then have r: "2 * index + 2 < length heap" and l: "2 * index + 1 < length heap"
    by (simp_all add: has_right_child_def get_right_child_index_def)
  show ?thesis
    using True embed_compare(1)[OF assms r l]
    by (simp add: smaller_child_index_def has_right_child_def right_child_def left_child_def
        get_right_child_index_def get_left_child_index_def)
next
  case False
  then show ?thesis by (simp add: smaller_child_index_def has_right_child_def)
qed

lemma embed_heapify_down_step:
  fixes heap :: "('f::ord, 'a) heap" and emb :: "'f \<Rightarrow> 'k::linorder"
  assumes "score_embedding S emb" "fst ` set heap \<subseteq> S"
  shows "heapify_down_step (embed_heap emb heap) index =
     map_option (\<lambda>(heap', index'). (embed_heap emb heap', index')) (heapify_down_step heap index)"
proof (cases "has_left_child heap index")
  case False
  then show ?thesis by (simp add: heapify_down_step_def has_left_child_def)
next
  case True
  let ?c = "smaller_child_index heap index"
  have c: "?c < length heap" by (rule smaller_child_bound[OF True])
  have "index < ?c" using smaller_child_cases[of heap index] by arith
  then have i: "index < length heap" using c by simp
  have lc': "has_left_child (embed_heap emb heap) index"
    using True by (simp add: has_left_child_def)
  show ?thesis
    using True lc' embed_compare(1)[OF assms i c] embed_swap_heap[OF i c, of emb]
    by (simp add: heapify_down_step_def embed_smaller_child_index[OF assms])
qed

lemma embed_heapify_down:
  fixes heap :: "('f::ord, 'a) heap" and emb :: "'f \<Rightarrow> 'k::linorder"
  assumes "score_embedding S emb"
  shows "fst ` set heap \<subseteq> S \<Longrightarrow>
     heapify_down (embed_heap emb heap) index = embed_heap emb (heapify_down heap index)"
proof (induction heap index rule: heapify_down.induct)
  case (1 heap index)
  show ?case
  proof (cases "heapify_down_step heap index")
    case None
    then have "heapify_down_step (embed_heap emb heap) index = None"
      using embed_heapify_down_step[OF assms "1.prems"] by simp
    then show ?thesis using None
      by (simp add: heapify_down_unfold[of heap] heapify_down_unfold[of "embed_heap emb heap"])
  next
    case (Some p)
    obtain heap' index' where p: "p = (heap', index')" by (cases p)
    have st: "heapify_down_step heap index = Some (heap', index')" using Some p by simp
    then have lc: "has_left_child heap index"
      and ge: "\<not> fst (heap ! index) < fst (heap ! smaller_child_index heap index)"
      and h': "heap' = swap_heap heap index (smaller_child_index heap index)"
      and i': "index' = smaller_child_index heap index"
      by (auto simp: heapify_down_step_def split: if_splits)
    have c: "index' < length heap" using smaller_child_bound[OF lc] i' by simp
    have "index < index'" using smaller_child_cases[of heap index] i' by arith
    then have i: "index < length heap" using c by simp
    have s: "fst ` set heap' \<subseteq> S"
      using "1.prems" set_swap_heap[OF i c] h' i' by simp
    have ih: "heapify_down (embed_heap emb heap') index' =
        embed_heap emb (heapify_down heap' index')"
      using "1.IH"[OF lc ge] s h' i' by simp
    have "heapify_down_step (embed_heap emb heap) index = Some (embed_heap emb heap', index')"
      using embed_heapify_down_step[OF assms "1.prems", of index] st by simp
    then show ?thesis using st ih
      by (simp add: heapify_down_unfold[of heap] heapify_down_unfold[of "embed_heap emb heap"])
  qed
qed

lemma embed_insert_heap:
  fixes heap :: "('f::ord, 'a) heap" and emb :: "'f \<Rightarrow> 'k::linorder"
  assumes "score_embedding S emb" "fst ` set heap \<subseteq> S" "fst item \<in> S"
  shows "insert_heap (embed_heap emb heap) (embed_item emb item) =
     embed_heap emb (insert_heap heap item)"
proof -
  have e: "embed_heap emb heap @ [embed_item emb item] = embed_heap emb (heap @ [item])"
    by (simp add: embed_heap_def)
  have s: "fst ` set (heap @ [item]) \<subseteq> S" using assms(2,3) by simp
  show ?thesis
    unfolding insert_heap_def e
    using embed_heapify_up[OF assms(1) s, of "length heap"] by simp
qed

lemma extract_min_unfold:
  "extract_min heap =
     (if heap = [] then (None, heap)
      else (Some (heap ! 0),
            if butlast (heap[0 := heap ! (length heap - 1)]) \<noteq> []
            then heapify_down (butlast (heap[0 := heap ! (length heap - 1)])) 0
            else butlast (heap[0 := heap ! (length heap - 1)])))"
  unfolding extract_min_def is_empty_heap_def Let_def length_0_conv
  by (simp only: simp_thms)

lemma extract_min_snd:
  assumes "heap \<noteq> []" "h2 = butlast (heap[0 := heap ! (length heap - 1)])"
  shows "snd (extract_min heap) = (if h2 \<noteq> [] then heapify_down h2 0 else h2)"
  unfolding extract_min_unfold[of heap] assms(2)[symmetric] using assms(1)
  by (simp only: if_False snd_conv)

lemma embed_extract_min:
  fixes heap :: "('f::ord, 'a) heap" and emb :: "'f \<Rightarrow> 'k::linorder"
  assumes "score_embedding S emb" "fst ` set heap \<subseteq> S"
  shows "snd (extract_min (embed_heap emb heap)) = embed_heap emb (snd (extract_min heap))"
proof (cases "heap = []")
  case True
  then show ?thesis by (simp add: extract_min_unfold embed_heap_def)
next
  case False
  define h2 where "h2 = butlast (heap[0 := heap ! (length heap - 1)])"
  have last: "length heap - 1 < length heap" using False by simp
  have e: "embed_heap emb h2 =
      butlast ((embed_heap emb heap)[0 := embed_heap emb heap ! (length (embed_heap emb heap) - 1)])"
    unfolding h2_def using last
    by (simp add: embed_heap_def map_butlast map_update del: butlast_list_update)
  have "set h2 \<subseteq> set heap"
  proof
    fix x assume "x \<in> set h2"
    then have "x \<in> set (heap[0 := heap ! (length heap - 1)])"
      unfolding h2_def by (rule in_set_butlastD)
    then show "x \<in> set heap" using last False
      by (metis insert_iff nth_mem set_update_subset_insert subsetD)
  qed
  then have s: "fst ` set h2 \<subseteq> S" using assms(2) by auto
  have ne: "embed_heap emb heap \<noteq> []" using False by simp
  have "snd (extract_min (embed_heap emb heap)) =
      (if embed_heap emb h2 \<noteq> [] then heapify_down (embed_heap emb h2) 0 else embed_heap emb h2)"
    by (rule extract_min_snd[OF ne e])
  moreover have "snd (extract_min heap) = (if h2 \<noteq> [] then heapify_down h2 0 else h2)"
    by (rule extract_min_snd[OF False h2_def])
  ultimately show ?thesis
    using embed_heapify_down[OF assms(1) s, of 0] by simp
qed

lemma scores_apply_call:
  assumes "fst ` set heap \<subseteq> S" "\<forall>item. c = Insert item \<longrightarrow> fst item \<in> S"
  shows "fst ` set (apply_call heap c) \<subseteq> S"
proof (cases c)
  case (Insert item)
  have "set (insert_heap heap item) = insert item (set heap)"
    using mset_insert_heap[of heap item] by (metis set_mset_mset set_mset_add_mset_insert)
  then show ?thesis using assms Insert by simp
next
  case ExtractMin
  show ?thesis
  proof (cases "heap = []")
    case True
    then show ?thesis using ExtractMin by (simp add: extract_min_unfold)
  next
    case False
    have "set heap = insert (heap ! 0) (set (snd (extract_min heap)))"
      using mset_extract_min[OF False] by (metis set_mset_mset set_mset_add_mset_insert)
    then show ?thesis using assms(1) ExtractMin by auto
  qed
qed

lemma embed_apply_call:
  fixes heap :: "('f::ord, 'a) heap" and emb :: "'f \<Rightarrow> 'k::linorder"
  assumes "score_embedding S emb" "fst ` set heap \<subseteq> S"
    and "\<forall>item. c = Insert item \<longrightarrow> fst item \<in> S"
  shows "apply_call (embed_heap emb heap) (embed_call emb c) = embed_heap emb (apply_call heap c)"
  using assms by (cases c) (simp_all add: embed_insert_heap embed_extract_min)

lemma embed_foldl_apply_call:
  fixes heap :: "('f::ord, 'a) heap" and emb :: "'f \<Rightarrow> 'k::linorder"
  assumes "score_embedding S emb"
  shows "fst ` set heap \<subseteq> S \<Longrightarrow> \<forall>item. Insert item \<in> set calls \<longrightarrow> fst item \<in> S \<Longrightarrow>
     foldl apply_call (embed_heap emb heap) (map (embed_call emb) calls) =
       embed_heap emb (foldl apply_call heap calls) \<and>
     fst ` set (foldl apply_call heap calls) \<subseteq> S"
proof (induction calls arbitrary: heap)
  case Nil
  then show ?case by simp
next
  case (Cons c calls)
  have ins: "\<forall>item. c = Insert item \<longrightarrow> fst item \<in> S" using Cons.prems(2) by simp
  have rest: "\<forall>item. Insert item \<in> set calls \<longrightarrow> fst item \<in> S" using Cons.prems(2) by simp
  have s: "fst ` set (apply_call heap c) \<subseteq> S" by (rule scores_apply_call[OF Cons.prems(1) ins])
  from Cons.IH[OF s rest] embed_apply_call[OF assms Cons.prems(1) ins]
  show ?case by simp
qed

lemma embed_heap_property:
  fixes heap :: "('f::ord, 'a) heap" and emb :: "'f \<Rightarrow> 'k::linorder"
  assumes "score_embedding S emb" "fst ` set heap \<subseteq> S"
  shows "heap_property (embed_heap emb heap) = heap_property heap"
proof -
  have "(has_left_child heap index \<longrightarrow>
           fst (embed_heap emb heap ! index) \<le> fst (left_child (embed_heap emb heap) index)) =
        (has_left_child heap index \<longrightarrow> fst (heap ! index) \<le> fst (left_child heap index))"
    if "index < length heap" for index
    using embed_compare(2)[OF assms that, of "2 * index + 1"]
    by (auto simp: has_left_child_def left_child_def get_left_child_index_def)
  moreover have "(has_right_child heap index \<longrightarrow>
           fst (embed_heap emb heap ! index) \<le> fst (right_child (embed_heap emb heap) index)) =
        (has_right_child heap index \<longrightarrow> fst (heap ! index) \<le> fst (right_child heap index))"
    if "index < length heap" for index
    using embed_compare(2)[OF assms that, of "2 * index + 2"]
    by (auto simp: has_right_child_def right_child_def get_right_child_index_def)
  ultimately show ?thesis
    unfolding heap_property_def
    by (simp add: has_left_child_def has_right_child_def)
qed

lemma float_key_embedding: "score_embedding {x. x \<noteq> NaN} float_key"
  unfolding score_embedding_def
proof (intro ballI)
  fix a b :: pyfloat
  assume "a \<in> {x. x \<noteq> NaN}" "b \<in> {x. x \<noteq> NaN}"
  then show "(a < b) = (float_key a < float_key b) \<and> (a \<le> b) = (float_key a \<le> float_key b)"
    by (cases a; cases b)
       (auto simp: less_pyfloat_def less_eq_pyfloat_def float_le_def float_eq_def)
qed

text \<open>
  Claim C5, as amended. After any sequence of \<open>insert\<close> and \<open>extract_min\<close> calls on a
  new MinHeap in which no inserted score is NaN, at every point of the sequence (after the
  first \<open>n\<close> calls, for every \<open>n\<close>) the list satisfies
  \<open>heap[parent][0] <= heap[child][0]\<close> for every parent and child index that exist, and
  \<open>extract_min\<close> on the list, when it is not empty, returns an element of the list whose
  score is the least of all scores in it, and removes exactly that element.
\<close>
theorem minheap_valid:
  fixes calls :: "(pyfloat, 'a) heap_call list"
  assumes "\<forall>item. Insert item \<in> set calls \<longrightarrow> fst item \<noteq> NaN"
  shows "heap_property (run_calls (take n calls)) \<and>
     (run_calls (take n calls) \<noteq> [] \<longrightarrow>
        (\<exists>m. fst (extract_min (run_calls (take n calls))) = Some m \<and>
             m \<in> set (run_calls (take n calls)) \<and>
             (\<forall>x \<in> set (run_calls (take n calls)). fst m \<le> fst x) \<and>
             mset (run_calls (take n calls)) =
               add_mset m (mset (snd (extract_min (run_calls (take n calls)))))))"
proof -
  define heap where "heap = run_calls (take n calls)"
  define S where "S = {x. x \<noteq> NaN}"
  have emb: "score_embedding S float_key" unfolding S_def by (rule float_key_embedding)
  have ins: "\<forall>item. Insert item \<in> set (take n calls) \<longrightarrow> fst item \<in> S"
    using assms by (auto simp: S_def dest: in_set_takeD)
  have "fst ` set ([] :: (pyfloat, 'a) heap) \<subseteq> S" by simp
  from embed_foldl_apply_call[OF emb this ins]
  have run: "run_calls (map (embed_call float_key) (take n calls)) = embed_heap float_key heap"
    and s: "fst ` set heap \<subseteq> S"
    by (simp_all add: run_calls_def heap_def embed_heap_def)
  have ok: "heap_ok (embed_heap float_key heap)"
    using run_calls_ok[of "map (embed_call float_key) (take n calls)"] by (simp add: run)
  have hp: "heap_property heap"
    using ok by (simp add: heap_property_iff[symmetric] embed_heap_property[OF emb s])
  have least: "\<forall>x \<in> set heap. fst (heap ! 0) \<le> fst x" if ne: "heap \<noteq> []"
  proof
    fix x assume "x \<in> set heap"
    then obtain i where i: "i < length heap" "heap ! i = x" by (auto simp: in_set_conv_nth)
    have z: "0 < length heap" using ne by simp
    have "fst (embed_heap float_key heap ! 0) \<le> fst (embed_heap float_key heap ! i)"
      using heap_ok_root_le[OF ok, of i] i(1) by simp
    then show "fst (heap ! 0) \<le> fst x"
      using embed_compare(2)[OF emb s z i(1)] i(2) by simp
  qed
  show ?thesis
    unfolding heap_def[symmetric]
    using hp least mset_extract_min[of heap] extract_min_fst[of heap]
    by auto
qed

text \<open>
  The statement at the calls \<open>insert (5.0, x), (2.0, y), (8.0, z), (1.0, w)\<close>: no score
  is NaN, the list is then not empty and \<open>extract_min\<close> returns an element of least score.
\<close>
theorem minheap_valid_witness:
  "run_calls (take 4 [Insert (Float 5, ''x''), Insert (Float 2, ''y''), Insert (Float 8, ''z''),
       Insert (Float 1, ''w''), ExtractMin]) =
     [(Float 1, ''w''), (Float 2, ''y''), (Float 8, ''z''), (Float 5, ''x'')] \<and>
   heap_property [(Float 1, ''w''), (Float 2, ''y''), (Float 8, ''z''), (Float 5, ''x'')] \<and>
   (\<exists>m. fst (extract_min [(Float 1, ''w''), (Float 2, ''y''), (Float 8, ''z''), (Float 5, ''x'')])
          = Some m \<and>
        (\<forall>x \<in> set [(Float 1, ''w''), (Float 2, ''y''), (Float 8, ''z''), (Float 5, ''x'')].
            fst m \<le> fst x))"
proof -
  have e: "run_calls (take 4 [Insert (Float 5, ''x''), Insert (Float 2, ''y''),
       Insert (Float 8, ''z''), Insert (Float 1, ''w''), ExtractMin]) =
     [(Float 1, ''w''), (Float 2, ''y''), (Float 8, ''z''), (Float 5, ''x'')]"
    by code_simp
  have a: "\<forall>item. Insert item \<in> set [Insert (Float 5, ''x''), Insert (Float 2, ''y''),
       Insert (Float 8, ''z''), Insert (Float 1, ''w''), ExtractMin] \<longrightarrow> fst item \<noteq> NaN"
    by auto
  show ?thesis
    using minheap_valid [OF a, of 4]
    unfolding e by blast
qed

text \<open>
  Claim C5 as stated fails when a score is NaN. After \<open>insert (nan, n)\<close>,
  \<open>insert (1.0, a)\<close>, \<open>insert (2.0, b)\<close> no swap has been made, since every \<open><\<close>
  against NaN is false: the root holds NaN, \<open>heap[0][0] <= heap[1][0]\<close> is false, and
  \<open>extract_min\<close> returns the NaN element, whose score is not the least: it is not
  \<open><=\<close> the score 1.0.
\<close>
theorem minheap_nan_score:
  "run_calls [Insert (NaN, ''n''), Insert (Float 1, ''a''), Insert (Float 2, ''b'')] =
     [(NaN, ''n''), (Float 1, ''a''), (Float 2, ''b'')] \<and>
   \<not> heap_property [(NaN, ''n''), (Float 1, ''a''), (Float 2, ''b'')] \<and>
   \<not> fst ([(NaN, ''n''), (Float 1, ''a''), (Float 2, ''b'')] ! 0)
       \<le> fst ([(NaN, ''n''), (Float 1, ''a''), (Float 2, ''b'')] ! get_left_child_index 0) \<and>
   fst (extract_min [(NaN, ''n''), (Float 1, ''a''), (Float 2, ''b'')]) = Some (NaN, ''n'') \<and>
   Float 1 < Float 2 \<and> \<not> NaN \<le> Float 1"
  by code_simp

text \<open>
  Claim C6, as amended. \<open>dequeue\<close> and \<open>peek\<close> on an empty SessionJoinQueue, and
  \<open>extract_min\<close> and \<open>get_min\<close> on an empty MinHeap, raise no error: each returns
  \<open>None\<close>. For \<open>dequeue\<close> and \<open>peek\<close> the result \<open>None\<close> does not mean that the
  queue is empty: it is returned exactly when the queue is empty or its front item is
  \<open>None\<close>.
\<close>
theorem empty_container_returns_none:
  fixes heap :: "('k::ord, 'a) heap"
  shows "(is_empty_queue items \<longrightarrow> fst (dequeue items) = None \<and> peek items = None) \<and>
         (is_empty_heap heap \<longrightarrow> fst (extract_min heap) = None \<and> get_min heap = None) \<and>
         (fst (dequeue items) = None \<longleftrightarrow>
            (case items of [] \<Rightarrow> True | item # rest \<Rightarrow> item = None)) \<and>
         (peek items = None \<longleftrightarrow>
            (case items of [] \<Rightarrow> True | item # rest \<Rightarrow> item = None))"
  by (cases items) (simp_all add: dequeue_def peek_def extract_min_def get_min_def
      is_empty_queue_def)

text \<open>The statement at the empty queue and the empty heap.\<close>
theorem empty_container_returns_none_witness:
  "is_empty_queue ([] :: string option list) \<and>
   fst (dequeue ([] :: string option list)) = None \<and>
   peek ([] :: string option list) = None \<and>
   is_empty_heap ([] :: (pyfloat, string) heap) \<and>
   fst (extract_min ([] :: (pyfloat, string) heap)) = None \<and>
   get_min ([] :: (pyfloat, string) heap) = None"
  using empty_container_returns_none [of "[] :: string option list" "[] :: (pyfloat, string) heap"]
  by (simp add: is_empty_queue_def is_empty_heap_def)

text \<open>
  Claim C6 as stated fails: on the empty queue and the empty heap the four calls return
  the value \<open>None\<close> and signal no error; \<open>dequeue\<close> and \<open>peek\<close> return the same
  on the queue that is not empty and holds the item \<open>None\<close>.
\<close>
theorem empty_result_is_in_band:
  "is_empty_queue ([] :: string option list) \<and>
   \<not> is_empty_queue [None :: string option] \<and>
   dequeue ([] :: string option list) = (None, []) \<and>
   dequeue [None :: string option] = (None, []) \<and>
   peek ([] :: string option list) = None \<and>
   peek [None :: string option] = None \<and>
   extract_min ([] :: (pyfloat, string) heap) = (None, []) \<and>
   get_min ([] :: (pyfloat, string) heap) = None"
  by (simp add: is_empty_queue_def dequeue_def peek_def extract_min_def get_min_def
      is_empty_heap_def)


section \<open>Properties of the admission pass\<close>

lemma foldl_enqueue:
  "foldl (\<lambda>queue request. enqueue queue (Some request)) acc xs = acc @ map Some xs"
  by (induction xs arbitrary: acc) (simp_all add: enqueue_def)

lemma process_queue_Nil: "process_queue session [] db = (None, db)"
  by (subst process_queue.simps) (simp add: is_empty_queue_def)

lemma process_queue_None: "process_queue session (None # q) db = (Some AttributeError, db)"
  by (subst process_queue.simps) (simp add: is_empty_queue_def dequeue_def)

lemma process_queue_Cons:
  "process_queue session (Some r # q) db =
     (if int (get_current_participants_count session db) < capacity session
      then (case create_participant session (jr_user r) db of
              Inl e \<Rightarrow> (Some e, db)
            | Inr db1 \<Rightarrow>
                process_queue session q (save_request (r\<lparr>processed := True, success := True\<rparr>) db1))
      else (None, save_request (r\<lparr>processed := True, success := False\<rparr>) db))"
  by (subst process_queue.simps) (simp add: is_empty_queue_def dequeue_def)

lemma count_save_request [simp]:
  "get_current_participants_count s (save_request r db) = get_current_participants_count s db"
  by (simp add: get_current_participants_count_def save_request_def)

lemma sessions_save_request [simp]: "sessions (save_request r db) = sessions db"
  by (simp add: save_request_def)

lemma participants_save_request [simp]: "participants (save_request r db) = participants db"
  by (simp add: save_request_def)

lemma create_participant_Inr:
  "create_participant s' u db = Inr db1 \<Longrightarrow>
     participants db1 = participants db @ [\<lparr>sp_session = session_id s', sp_user = u\<rparr>] \<and>
     sessions db1 = sessions db \<and> join_requests db1 = join_requests db"
  by (auto simp: create_participant_def split: if_splits)

lemma count_create_participant:
  "create_participant s' u db = Inr db1 \<Longrightarrow>
     get_current_participants_count s db1 =
       get_current_participants_count s db + (if session_id s' = session_id s then 1 else 0)"
  by (auto simp: get_current_participants_count_def dest!: create_participant_Inr)

lemma process_queue_capacity:
  assumes "session_id s' = session_id s \<longrightarrow> capacity s' = capacity s"
    and "int (get_current_participants_count s db) \<le> capacity s"
  shows "int (get_current_participants_count s (snd (process_queue s' q db))) \<le> capacity s \<and>
         sessions (snd (process_queue s' q db)) = sessions db"
  using assms(2)
proof (induction q arbitrary: db)
  case Nil
  then show ?case by (simp add: process_queue_Nil)
next
  case (Cons item q)
  show ?case
  proof (cases item)
    case None
    then show ?thesis using Cons.prems by (simp add: process_queue_None)
  next
  case (Some r)
  note item = Some
  show ?thesis
  proof (cases "int (get_current_participants_count s' db) < capacity s'")
    case False
    then show ?thesis using Cons.prems by (simp add: item process_queue_Cons)
  next
    case True
    show ?thesis
    proof (cases "create_participant s' (jr_user r) db")
      case (Inl e)
      then show ?thesis using True Cons.prems by (simp add: item process_queue_Cons)
    next
      case (Inr db1)
      have c1: "int (get_current_participants_count s db1) \<le> capacity s"
      proof (cases "session_id s' = session_id s")
        case same: True
        then have "get_current_participants_count s' db = get_current_participants_count s db"
          by (simp add: get_current_participants_count_def)
        then show ?thesis using True same assms(1) count_create_participant[OF Inr, of s] by simp
      next
        case False
        then show ?thesis using Cons.prems count_create_participant[OF Inr, of s] by simp
      qed
      have "sessions db1 = sessions db" using create_participant_Inr[OF Inr] by simp
      then show ?thesis
        using True Inr Cons.IH[of "save_request (r\<lparr>processed := True, success := True\<rparr>) db1"] c1
        by (simp add: item process_queue_Cons)
    qed
  qed
qed
qed

lemma get_session_id: "get_session db sid = Some s \<Longrightarrow> session_id s = sid"
  by (auto simp: get_session_def find_Some_iff)

lemma process_join_queue_capacity:
  assumes "get_session db sid = Some s"
    and "int (get_current_participants_count s db) \<le> capacity s"
  shows "int (get_current_participants_count s (snd (process_join_queue sid' db))) \<le> capacity s \<and>
         sessions (snd (process_join_queue sid' db)) = sessions db"
proof (cases "get_session db sid'")
  case None
  then show ?thesis using assms(2) by (simp add: process_join_queue_def)
next
  case (Some s')
  have "session_id s' = session_id s \<longrightarrow> capacity s' = capacity s"
  proof
    assume "session_id s' = session_id s"
    then have "sid' = sid" using get_session_id[OF Some] get_session_id[OF assms(1)] by simp
    then have "Some s' = Some s" using Some assms(1) by (simp only:)
    then show "capacity s' = capacity s" by simp
  qed
  from process_queue_capacity[OF this assms(2)] show ?thesis
    using Some by (simp add: process_join_queue_def Let_def)
qed

lemma get_session_cong: "sessions db' = sessions db \<Longrightarrow> get_session db' sid = get_session db sid"
  by (simp add: get_session_def)

lemma count_cong:
  "participants db' = participants db \<Longrightarrow>
     get_current_participants_count s db' = get_current_participants_count s db"
  by (simp add: get_current_participants_count_def)

lemma apply_event_capacity:
  assumes "get_session db sid = Some s"
    and "int (get_current_participants_count s db) \<le> capacity s"
  shows "int (get_current_participants_count s (apply_event db e)) \<le> capacity s \<and>
         sessions (apply_event db e) = sessions db"
proof (cases e)
  case (Pass sid')
  then show ?thesis using process_join_queue_capacity[OF assms] by simp
next
  case (Join sid' user now)
  show ?thesis
  proof (cases "get_session db sid'")
    case None
    then show ?thesis using Join assms(2) by (simp add: join_session_def)
  next
    case (Some s')
    show ?thesis
    proof (cases "has_user_joined s' user db")
      case True
      then show ?thesis using Join Some assms(2) by (simp add: join_session_def)
    next
      case False
      define r where "r = \<lparr>jr_id = Suc (fold max (map jr_id (join_requests db)) 0),
          jr_session = session_id s', jr_user = user,
          jr_timestamp = now, processed = False, success = False\<rparr>"
      define db1 where "db1 = db\<lparr>join_requests := join_requests db @ [r]\<rparr>"
      have g: "get_session db1 sid = Some s" using assms(1) by (simp add: db1_def get_session_def)
      have c: "int (get_current_participants_count s db1) \<le> capacity s"
        using assms(2) by (simp add: db1_def get_current_participants_count_def)
      have "apply_event db e = snd (process_join_queue (session_id s') db1)"
        using Join Some False by (simp add: join_session_def Let_def r_def db1_def)
      then show ?thesis using process_join_queue_capacity[OF g c, of "session_id s'"]
        by (simp add: db1_def)
    qed
  qed
next
  case (Leave sid' user)
  have le: "length (filter P (filter Q xs)) \<le> length (filter P xs)" for P Q and xs :: "session_participant list"
    by (induction xs) auto
  show ?thesis
  proof (cases "get_session db sid'")
    case None
    then show ?thesis using Leave assms(2) by (simp add: leave_session_def)
  next
    case (Some s')
    show ?thesis using Leave Some assms(2)
        le[of "\<lambda>p. sp_session p = session_id s" "\<lambda>p. \<not> (sp_session p = session_id s' \<and> sp_user p = user)" "participants db"]
      by (auto simp: leave_session_def Let_def get_current_participants_count_def)
  qed
qed

lemma run_events_capacity:
  assumes "get_session db sid = Some s"
    and "int (get_current_participants_count s db) \<le> capacity s"
  shows "int (get_current_participants_count s (run_events events db)) \<le> capacity s \<and>
         get_session (run_events events db) sid = Some s"
  using assms unfolding run_events_def
proof (induction events arbitrary: db)
  case Nil
  then show ?case by simp
next
  case (Cons e events)
  from apply_event_capacity[OF Cons.prems, of e]
  have c: "int (get_current_participants_count s (apply_event db e)) \<le> capacity s"
    and g: "get_session (apply_event db e) sid = Some s"
    using Cons.prems(1) by (simp_all add: get_session_def)
  from Cons.IH[OF g c] show ?case by simp
qed

text \<open>
  Claim C3. For a session of capacity \<open>C\<close> whose participant count is at most \<open>C\<close>,
  after any sequence of admission passes (on this or on other sessions), also with
  \<open>join_session\<close> and \<open>leave_session\<close> calls between them, and at every point of the
  sequence (after its first \<open>n\<close> events, for every \<open>n\<close>), the session's participant
  count does not exceed \<open>C\<close>. A pass that is cut short by an exception is included.
\<close>
theorem capacity_invariant:
  assumes "get_session db sid = Some s"
    and "int (get_current_participants_count s db) \<le> capacity s"
  shows "int (get_current_participants_count s (run_events (take n events) db)) \<le> capacity s"
  using run_events_capacity[OF assms] by simp

lemma same_id_same_row:
  "distinct (map jr_id rows) \<Longrightarrow> x \<in> set rows \<Longrightarrow> y \<in> set rows \<Longrightarrow> jr_id x = jr_id y \<Longrightarrow> x = y"
  by (auto simp: distinct_map inj_on_def)

lemma save_request_rows:
  assumes "distinct (map jr_id (join_requests db))" "r \<in> set (join_requests db)"
    and "jr_id r' = jr_id r"
  shows "join_requests (save_request r' db) =
     map (\<lambda>x. if x = r then r' else x) (join_requests db)"
  unfolding save_request_def using assms same_id_same_row[OF assms(1) _ assms(2)]
  by (auto simp: map_eq_conv)

lemma has_user_joined_create:
  "create_participant s u db = Inr db1 \<Longrightarrow>
     has_user_joined s u' db1 \<longleftrightarrow> has_user_joined s u' db \<or> u' = u"
  by (auto simp: has_user_joined_def filter_empty_conv dest!: create_participant_Inr)

lemma has_user_joined_save [simp]:
  "has_user_joined s u (save_request r db) = has_user_joined s u db"
  by (simp add: has_user_joined_def save_request_def)

lemma process_queue_admits:
  assumes "distinct (map jr_id (join_requests db))"
    and "set q \<subseteq> set (join_requests db)"
    and "distinct (map jr_id q)"
    and "m = nat (capacity s - int (get_current_participants_count s db))"
    and "distinct (map jr_user (take m q))"
    and "\<forall>r \<in> set (take m q). \<not> has_user_joined s (jr_user r) db"
  shows "process_queue s (map Some q) db =
     (None, db\<lparr>participants :=
                 participants db @
                 map (\<lambda>r. \<lparr>sp_session = session_id s, sp_user = jr_user r\<rparr>) (take m q),
               join_requests :=
                 map (mark_request (take m q) (if m < length q then Some (q ! m) else None))
                   (join_requests db)\<rparr>)"
  using assms
proof (induction q arbitrary: db m)
  case Nil
  have "map (mark_request [] None) (join_requests db) = join_requests db"
    by (simp add: mark_request_def map_idI)
  then show ?case by (simp add: process_queue_Nil)
next
  case (Cons r q)
  let ?rows = "join_requests db"
  have r_in: "r \<in> set ?rows" using Cons.prems(2) by simp
  have q_ids: "jr_id r \<notin> jr_id ` set q" "distinct (map jr_id q)" using Cons.prems(3) by auto
  show ?case
  proof (cases m)
    case 0
    then have full: "\<not> int (get_current_participants_count s db) < capacity s"
      using Cons.prems(4) by simp
    have "join_requests (save_request (r\<lparr>processed := True, success := False\<rparr>) db) =
        map (\<lambda>x. if x = r then r\<lparr>processed := True, success := False\<rparr> else x) ?rows"
      by (rule save_request_rows[OF Cons.prems(1) r_in]) simp
    also have "\<dots> = map (mark_request [] (Some r)) ?rows"
      using same_id_same_row[OF Cons.prems(1) _ r_in]
      by (auto simp: map_eq_conv mark_request_def)
    finally have "save_request (r\<lparr>processed := True, success := False\<rparr>) db =
        db\<lparr>join_requests := map (mark_request [] (Some r)) ?rows\<rparr>"
      by (simp add: save_request_def)
    then show ?thesis using full 0 by (simp add: process_queue_Cons)
  next
    case (Suc m')
    then have free: "int (get_current_participants_count s db) < capacity s"
      using Cons.prems(4) by simp
    have nj: "\<not> has_user_joined s (jr_user r) db" using Cons.prems(6) Suc by simp
    define db1 where "db1 = db\<lparr>participants :=
        participants db @ [\<lparr>sp_session = session_id s, sp_user = jr_user r\<rparr>]\<rparr>"
    have cp: "create_participant s (jr_user r) db = Inr db1"
      using nj by (simp add: create_participant_def db1_def)
    define r' where "r' = r\<lparr>processed := True, success := True\<rparr>"
    define db2 where "db2 = save_request r' db1"
    have rows1: "join_requests db1 = ?rows" by (simp add: db1_def)
    have rows2: "join_requests db2 = map (\<lambda>x. if x = r then r' else x) ?rows"
      unfolding db2_def using save_request_rows[of db1 r r'] Cons.prems(1) r_in rows1
      by (simp add: r'_def)
    have step: "process_queue s (map Some (r # q)) db = process_queue s (map Some q) db2"
      using free cp by (simp add: process_queue_Cons db2_def r'_def)
    have p1: "distinct (map jr_id (join_requests db2))"
    proof -
      have "map jr_id (join_requests db2) = map jr_id ?rows"
        by (simp add: rows2 r'_def map_eq_conv)
      then show ?thesis using Cons.prems(1) by simp
    qed
    have p2: "set q \<subseteq> set (join_requests db2)"
    proof
      fix y assume y: "y \<in> set q"
      then have "y \<noteq> r" using q_ids(1) by auto
      moreover have "y \<in> set ?rows" using y Cons.prems(2) by auto
      ultimately show "y \<in> set (join_requests db2)" unfolding rows2 by force
    qed
    have cnt: "get_current_participants_count s db2 = Suc (get_current_participants_count s db)"
      using count_create_participant[OF cp, of s] by (simp add: db2_def)
    have p4: "m' = nat (capacity s - int (get_current_participants_count s db2))"
      using Cons.prems(4) Suc cnt by simp
    have p5: "distinct (map jr_user (take m' q))" using Cons.prems(5) Suc by simp
    have p6: "\<forall>x \<in> set (take m' q). \<not> has_user_joined s (jr_user x) db2"
    proof
      fix x assume x: "x \<in> set (take m' q)"
      have "jr_user r \<notin> jr_user ` set (take m' q)" using Cons.prems(5) Suc by simp
      then have "jr_user x \<noteq> jr_user r" using x by (metis imageI)
      moreover have "\<not> has_user_joined s (jr_user x) db" using Cons.prems(6) Suc x by simp
      ultimately show "\<not> has_user_joined s (jr_user x) db2"
        using has_user_joined_create[OF cp] by (simp add: db2_def)
    qed
    let ?refused = "if m' < length q then Some (q ! m') else None"
    have ih: "process_queue s (map Some q) db2 =
        (None, db2\<lparr>participants := participants db2 @
                     map (\<lambda>r. \<lparr>sp_session = session_id s, sp_user = jr_user r\<rparr>) (take m' q),
                   join_requests := map (mark_request (take m' q) ?refused) (join_requests db2)\<rparr>)"
      by (rule Cons.IH[OF p1 p2 q_ids(2) p4 p5 p6])
    have refused_id: "map_option jr_id ?refused \<noteq> Some (jr_id r)"
      using q_ids(1) by (auto simp: image_iff) (metis nth_mem)
    have taken_id: "jr_id r \<notin> jr_id ` set (take m' q)"
      using q_ids(1) by (auto dest: in_set_takeD)
    have rows_eq: "map (mark_request (take m' q) ?refused) (join_requests db2) =
        map (mark_request (r # take m' q) ?refused) ?rows"
      unfolding rows2 map_map
    proof (rule map_cong[OF refl])
      fix x assume "x \<in> set ?rows"
      show "(mark_request (take m' q) ?refused \<circ> (\<lambda>x. if x = r then r' else x)) x =
          mark_request (r # take m' q) ?refused x"
      proof (cases "x = r")
        case True
        have "mark_request (take m' q) ?refused r' = r'"
          using refused_id taken_id unfolding mark_request_def r'_def by simp
        moreover have "mark_request (r # take m' q) ?refused r = r'"
          unfolding mark_request_def r'_def by simp
        ultimately show ?thesis using True by simp
      next
        case False
        then have "jr_id x \<noteq> jr_id r"
          using same_id_same_row[OF Cons.prems(1) \<open>x \<in> set ?rows\<close> r_in] by auto
        then show ?thesis using False unfolding mark_request_def by simp
      qed
    qed
    have "db2\<lparr>participants := participants db2 @
                 map (\<lambda>r. \<lparr>sp_session = session_id s, sp_user = jr_user r\<rparr>) (take m' q),
               join_requests := map (mark_request (take m' q) ?refused) (join_requests db2)\<rparr> =
          db\<lparr>participants := participants db @
                 map (\<lambda>r. \<lparr>sp_session = session_id s, sp_user = jr_user r\<rparr>) (take m (r # q)),
              join_requests := map (mark_request (take m (r # q))
                  (if m < length (r # q) then Some ((r # q) ! m) else None)) ?rows\<rparr>"
      unfolding rows_eq using Suc by (simp add: db2_def db1_def save_request_def)
    then show ?thesis using step ih by simp
  qed
qed

lemma no_participant_not_joined:
  "get_current_participants_count s db = 0 \<Longrightarrow> \<not> has_user_joined s u db"
  by (auto simp: get_current_participants_count_def has_user_joined_def filter_empty_conv)

text \<open>
  Claim C1, as amended. For a session with capacity \<open>C\<close>, no participants and \<open>n \<ge> C\<close>
  pending join requests \<open>rs\<close> with strictly increasing arrival timestamps, where the first
  \<open>C\<close> requests come from pairwise different users, one pass of \<open>process_join_queue\<close>
  returns without an exception, creates a participant for each of the first \<open>C\<close> requests in
  arrival order and sets \<open>processed = True, success = True\<close> on them, sets
  \<open>processed = True, success = False\<close> on request \<open>C + 1\<close> when there is one, and
  leaves every other row of the request table, so requests \<open>C + 2\<close> to \<open>n\<close>, as it was.
\<close>
theorem admission_pass_fifo:
  assumes "get_session db sid = Some s"
    and "capacity s = int C"
    and "get_current_participants_count s db = 0"
    and "distinct (map jr_id (join_requests db))"
    and "rs = pending_requests s db"
    and "sorted_wrt (<) (map jr_timestamp rs)"
    and "C \<le> length rs"
    and "distinct (map jr_user (take C rs))"
  shows "process_join_queue sid db =
     (None, db\<lparr>participants :=
                 participants db @
                 map (\<lambda>r. \<lparr>sp_session = sid, sp_user = jr_user r\<rparr>) (take C rs),
               join_requests :=
                 map (mark_request (take C rs) (if C < length rs then Some (rs ! C) else None))
                   (join_requests db)\<rparr>)"
proof -
  have sid: "session_id s = sid" by (rule get_session_id[OF assms(1)])
  have sub: "set rs \<subseteq> set (join_requests db)" by (auto simp: assms(5) pending_requests_def)
  have "distinct rs" using assms(4) by (simp add: assms(5) pending_requests_def distinct_map)
  moreover have "inj_on jr_id (set rs)"
    using assms(4) sub by (auto simp: distinct_map intro: inj_on_subset)
  ultimately have dq: "distinct (map jr_id rs)" by (simp add: distinct_map)
  have m: "C = nat (capacity s - int (get_current_participants_count s db))"
    using assms(2,3) by simp
  have nj: "\<forall>r \<in> set (take C rs). \<not> has_user_joined s (jr_user r) db"
    using no_participant_not_joined[OF assms(3)] by simp
  have "process_join_queue sid db = process_queue s (map Some rs) db"
    using assms(1) by (simp add: process_join_queue_def Let_def foldl_enqueue assms(5))
  then show ?thesis
    using process_queue_admits[OF assms(4) sub dq m assms(8) nj] sid by simp
qed

text \<open>The statement at the example session: capacity 2 and four requests.\<close>
theorem admission_pass_fifo_witness:
  "get_session example_db 1 = Some example_session \<and>
   pending_requests example_session example_db = example_requests \<and>
   process_join_queue 1 example_db =
     (None,
      \<lparr>sessions = [example_session],
       participants = [\<lparr>sp_session = 1, sp_user = 10\<rparr>, \<lparr>sp_session = 1, sp_user = 11\<rparr>],
       join_requests =
         [\<lparr>jr_id = 1, jr_session = 1, jr_user = 10, jr_timestamp = 1, processed = True, success = True\<rparr>,
          \<lparr>jr_id = 2, jr_session = 1, jr_user = 11, jr_timestamp = 2, processed = True, success = True\<rparr>,
          \<lparr>jr_id = 3, jr_session = 1, jr_user = 12, jr_timestamp = 3, processed = True, success = False\<rparr>,
          \<lparr>jr_id = 4, jr_session = 1, jr_user = 13, jr_timestamp = 4, processed = False, success = False\<rparr>]\<rparr>)"
proof -
  have g: "get_session example_db 1 = Some example_session"
    by (simp add: get_session_def example_db_def example_session_def)
  have c: "capacity example_session = int 2" by (simp add: example_session_def)
  have n: "get_current_participants_count example_session example_db = 0"
    by (simp add: get_current_participants_count_def example_db_def)
  have d: "distinct (map jr_id (join_requests example_db))"
    by (simp add: example_db_def example_requests_def)
  have p: "example_requests = pending_requests example_session example_db"
    by (simp add: pending_requests_def example_db_def example_requests_def example_session_def)
  have t: "sorted_wrt (<) (map jr_timestamp example_requests)"
    by (simp add: example_requests_def)
  have l: "2 \<le> length example_requests" by (simp add: example_requests_def)
  have u: "distinct (map jr_user (take 2 example_requests))"
    by (simp add: example_requests_def)
  show ?thesis
    using admission_pass_fifo [OF g c n d p t l u] g p
    by (simp add: example_db_def example_requests_def mark_request_def)
qed

text \<open>
  Claim C1 as stated fails when two of the first \<open>C\<close> requests come from the same user:
  with capacity 2 and requests of users 10, 10, 11 at times 1, 2, 3, the second
  \<open>SessionParticipant.objects.create\<close> raises \<open>IntegrityError\<close>; one request is
  admitted, the second is not, and the third is not marked.
\<close>
theorem admission_pass_repeated_user:
  "get_session repeated_user_db 1 = Some \<lparr>session_id = 1, capacity = 2\<rparr> \<and>
   map jr_timestamp (pending_requests \<lparr>session_id = 1, capacity = 2\<rparr> repeated_user_db) = [1, 2, 3] \<and>
   process_join_queue 1 repeated_user_db =
     (Some IntegrityError,
      \<lparr>sessions = [\<lparr>session_id = 1, capacity = 2\<rparr>],
       participants = [\<lparr>sp_session = 1, sp_user = 10\<rparr>],
       join_requests =
         [\<lparr>jr_id = 1, jr_session = 1, jr_user = 10, jr_timestamp = 1, processed = True, success = True\<rparr>,
          \<lparr>jr_id = 2, jr_session = 1, jr_user = 10, jr_timestamp = 2, processed = False, success = False\<rparr>,
          \<lparr>jr_id = 3, jr_session = 1, jr_user = 11, jr_timestamp = 3, processed = False, success = False\<rparr>]\<rparr>)"
  by (simp add: repeated_user_db_def example_session_def get_session_def pending_requests_def
      process_join_queue_def enqueue_def process_queue_Cons process_queue_Nil
      get_current_participants_count_def create_participant_def has_user_joined_def
      save_request_def)

text \<open>The statement at the example session, with a pass, a join, a leave and a pass.\<close>
theorem capacity_invariant_witness:
  "get_session example_db 1 = Some example_session \<and>
   int (get_current_participants_count example_session example_db) \<le> capacity example_session \<and>
   int (get_current_participants_count example_session
          (run_events (take 4 [Pass 1, Join 1 14 9, Leave 1 10, Pass 1]) example_db))
     \<le> capacity example_session \<and>
   get_current_participants_count example_session
          (run_events [Pass 1, Join 1 14 9, Leave 1 10, Pass 1] example_db) = 2"
proof -
  have g: "get_session example_db 1 = Some example_session"
    by (simp add: get_session_def example_db_def example_session_def)
  have c: "int (get_current_participants_count example_session example_db)
      \<le> capacity example_session"
    by (simp add: get_current_participants_count_def example_db_def example_session_def)
  have e: "get_current_participants_count example_session
          (run_events [Pass 1, Join 1 14 9, Leave 1 10, Pass 1] example_db) = 2"
    by code_simp
  show ?thesis
    using capacity_invariant [OF g c, of 4 "[Pass 1, Join 1 14 9, Leave 1 10, Pass 1]"] g c e
    by simp
qed


section \<open>Properties of the scheduling pass\<close>

lemma has_conflict_iff: "has_conflict booking confirmed_times \<longleftrightarrow> slot booking \<in> set confirmed_times"
  by (induction confirmed_times) (auto simp: slot_def)

lemma same_b_id_same_row:
  "distinct (map b_id db) \<Longrightarrow> x \<in> set db \<Longrightarrow> y \<in> set db \<Longrightarrow> b_id x = b_id y \<Longrightarrow> x = y"
  by (auto simp: distinct_map inj_on_def)

lemma get_booking_Some:
  "distinct (map b_id db) \<Longrightarrow> x \<in> set db \<Longrightarrow> get_booking db (b_id x) = Some x"
  unfolding get_booking_def
  by (induction db) (auto simp: rev_image_eqI)

lemma map_b_id_save_booking:
  "map b_id (save_booking b db) = map b_id db"
  by (simp add: save_booking_def map_eq_conv)

lemma save_booking_other:
  "x \<in> set db \<Longrightarrow> b_id x \<noteq> b_id b \<Longrightarrow> x \<in> set (save_booking b db)"
  by (force simp: save_booking_def)

lemma save_booking_self:
  "b \<in> set db \<Longrightarrow> b_id b' = b_id b \<Longrightarrow> b' \<in> set (save_booking b' db)"
  by (force simp: save_booking_def)

lemma process_bookings_spec:
  assumes "distinct (map b_id db)" "set bookings \<subseteq> set db" "distinct (map b_id bookings)"
  shows "fst (process_bookings now bookings cts k db) = k + length bookings \<and>
         map b_id (snd (process_bookings now bookings cts k db)) = map b_id db \<and>
         (\<forall>x \<in> set db. b_id x \<notin> b_id ` set bookings \<longrightarrow>
              x \<in> set (snd (process_bookings now bookings cts k db))) \<and>
         (\<forall>j < length bookings.
              (bookings ! j)\<lparr>status := (if slot (bookings ! j) \<in> set cts \<union> slot ` set (take j bookings)
                                          then Rejected else Confirmed),
                              processed_at := Some (now (k + j))\<rparr>
              \<in> set (snd (process_bookings now bookings cts k db)))"
  using assms
proof (induction bookings arbitrary: cts k db)
  case Nil
  then show ?case by simp
next
  case (Cons b bookings)
  define st where "st = (if slot b \<in> set cts then Rejected else Confirmed)"
  define b' where "b' = b\<lparr>status := st, processed_at := Some (now k)\<rparr>"
  define cts1 where "cts1 = (if slot b \<in> set cts then cts else cts @ [slot b])"
  define db1 where "db1 = save_booking b' db"
  have step: "process_bookings now (b # bookings) cts k db =
      process_bookings now bookings cts1 (k + 1) db1"
    by (simp add: has_conflict_iff st_def b'_def cts1_def db1_def slot_def)
  have b_in: "b \<in> set db" using Cons.prems(2) by simp
  have nb: "b_id b \<notin> b_id ` set bookings" and dq: "distinct (map b_id bookings)"
    using Cons.prems(3) by auto
  have id': "b_id b' = b_id b" by (simp add: b'_def)
  have p1: "distinct (map b_id db1)"
    using Cons.prems(1) by (simp add: db1_def map_b_id_save_booking)
  have p2: "set bookings \<subseteq> set db1"
  proof
    fix y assume y: "y \<in> set bookings"
    then have "b_id y \<noteq> b_id b'" using nb id' by (metis imageI)
    moreover have "y \<in> set db" using y Cons.prems(2) by auto
    ultimately show "y \<in> set db1" unfolding db1_def by (rule save_booking_other[rotated])
  qed
  note ih = Cons.IH[OF p1 p2 dq, of cts1 "k + 1"]
  let ?res = "process_bookings now bookings cts1 (k + 1) db1"
  have cts1_set: "set cts1 = insert (slot b) (set cts)" by (auto simp: cts1_def)
  have c1: "fst ?res = k + length (b # bookings)" using ih by simp
  have c2: "map b_id (snd ?res) = map b_id db"
    using ih by (simp add: db1_def map_b_id_save_booking)
  have c3: "\<forall>x \<in> set db. b_id x \<notin> b_id ` set (b # bookings) \<longrightarrow> x \<in> set (snd ?res)"
  proof (intro ballI impI)
    fix x assume x: "x \<in> set db" "b_id x \<notin> b_id ` set (b # bookings)"
    have "b_id x \<noteq> b_id b'" "b_id x \<notin> b_id ` set bookings" using x(2) id' by auto
    moreover from this x(1) have "x \<in> set db1" unfolding db1_def by (intro save_booking_other)
    ultimately show "x \<in> set (snd ?res)" using ih by blast
  qed
  have b'_db1: "b' \<in> set db1" unfolding db1_def by (rule save_booking_self[OF b_in id'])
  have "b_id b' \<notin> b_id ` set bookings" using nb id' by simp
  then have b'_res: "b' \<in> set (snd ?res)" using ih b'_db1 by blast
  have c4: "\<forall>j < length (b # bookings).
      ((b # bookings) ! j)\<lparr>status := (if slot ((b # bookings) ! j) \<in> set cts \<union> slot ` set (take j (b # bookings))
                                          then Rejected else Confirmed),
                              processed_at := Some (now (k + j))\<rparr> \<in> set (snd ?res)"
  proof (intro allI impI)
    fix j assume j: "j < length (b # bookings)"
    show "((b # bookings) ! j)\<lparr>status := (if slot ((b # bookings) ! j) \<in> set cts \<union> slot ` set (take j (b # bookings))
                                          then Rejected else Confirmed),
                              processed_at := Some (now (k + j))\<rparr> \<in> set (snd ?res)"
    proof (cases j)
      case 0
      then show ?thesis using b'_res by (simp add: b'_def st_def)
    next
      case (Suc j')
      then have j': "j' < length bookings" using j by simp
      define P where "P = (slot (bookings ! j') \<in> set cts1 \<union> slot ` set (take j' bookings))"
      have ihj: "(bookings ! j')\<lparr>status := (if P then Rejected else Confirmed),
          processed_at := Some (now (k + 1 + j'))\<rparr> \<in> set (snd ?res)"
        unfolding P_def using ih j' by blast
      have eq: "(slot ((b # bookings) ! j) \<in> set cts \<union> slot ` set (take j (b # bookings))) = P"
        unfolding P_def using Suc cts1_set by auto
      show ?thesis unfolding eq using ihj Suc by simp
    qed
  qed
  show ?case unfolding step using c1 c2 c3 c4 by blast
qed

lemma pending_bookings_set:
  "set (pending_bookings trainer_id db) =
     {b \<in> set db. trainer b = trainer_id \<and> status b = Pending}"
  by (auto simp: pending_bookings_def)

lemma pending_bookings_distinct:
  assumes "distinct (map b_id db)"
  shows "distinct (map b_id (pending_bookings trainer_id db))"
proof -
  have "distinct (pending_bookings trainer_id db)"
    using assms by (simp add: pending_bookings_def distinct_map)
  moreover have "inj_on b_id (set (pending_bookings trainer_id db))"
    using assms by (auto simp: distinct_map pending_bookings_set intro: inj_on_subset)
  ultimately show ?thesis by (simp add: distinct_map)
qed

lemma pending_bookings_sorted: "sorted (map priority_score (pending_bookings trainer_id db))"
  by (simp add: pending_bookings_def)

lemma process_booking_queue_loop:
  "process_booking_queue now trainer_id db =
     process_bookings now (pending_bookings trainer_id db) [] 0 db"
  by (cases "pending_bookings trainer_id db") (simp_all add: process_booking_queue_def)

lemma pass_spec:
  assumes "distinct (map b_id db)" and "pb = pending_bookings trainer_id db"
    and "res = process_booking_queue now trainer_id db"
  shows "fst res = length pb"
    and "map b_id (snd res) = map b_id db"
    and "\<And>x. x \<in> set db \<Longrightarrow> x \<notin> set pb \<Longrightarrow> get_booking (snd res) (b_id x) = Some x"
    and "\<And>k. k < length pb \<Longrightarrow> get_booking (snd res) (b_id (pb ! k)) = Some (resolved now pb k)"
proof -
  have sub: "set pb \<subseteq> set db" by (auto simp: assms(2) pending_bookings_set)
  have dq: "distinct (map b_id pb)" unfolding assms(2) by (rule pending_bookings_distinct[OF assms(1)])
  have res: "res = process_bookings now pb [] 0 db"
    by (simp add: assms(2,3) process_booking_queue_loop)
  note spec = process_bookings_spec[OF assms(1) sub dq, of now "[]" 0, folded res]
  show "fst res = length pb" using spec by simp
  show ids: "map b_id (snd res) = map b_id db" using spec by simp
  then have d': "distinct (map b_id (snd res))" using assms(1) by simp
  show "get_booking (snd res) (b_id x) = Some x" if x: "x \<in> set db" "x \<notin> set pb" for x
  proof -
    have "b_id x \<notin> b_id ` set pb"
    proof
      assume "b_id x \<in> b_id ` set pb"
      then obtain y where y: "y \<in> set pb" "b_id x = b_id y" by auto
      then have "x = y" using same_b_id_same_row[OF assms(1) x(1)] sub by auto
      then show False using x(2) y(1) by simp
    qed
    then have "x \<in> set (snd res)" using spec x(1) by blast
    then show ?thesis by (rule get_booking_Some[OF d'])
  qed
  show "get_booking (snd res) (b_id (pb ! k)) = Some (resolved now pb k)" if k: "k < length pb" for k
  proof -
    have "resolved now pb k \<in> set (snd res)"
      using spec k unfolding resolved_def by simp
    from get_booking_Some[OF d' this] show ?thesis by (simp add: resolved_def)
  qed
qed

lemma slot_seen_iff:
  assumes "k \<le> length pb"
  shows "s \<in> slot ` set (take k pb) \<longleftrightarrow> (\<exists>j<k. slot (pb ! j) = s)"
proof
  assume "s \<in> slot ` set (take k pb)"
  then obtain x where "x \<in> set (take k pb)" "slot x = s" by auto
  then obtain j where "j < length (take k pb)" "take k pb ! j = x"
    by (auto simp: in_set_conv_nth)
  then show "\<exists>j<k. slot (pb ! j) = s" using \<open>slot x = s\<close> by auto
next
  assume "\<exists>j<k. slot (pb ! j) = s"
  then obtain j where j: "j < k" "slot (pb ! j) = s" by auto
  then have "pb ! j \<in> set (take k pb)"
    using assms by (metis in_set_conv_nth length_take min.absorb2 nth_take)
  then show "s \<in> slot ` set (take k pb)" using j(2) by auto
qed

lemma first_of_slot_confirmed:
  assumes "k < length pb" "slot (pb ! k) \<in> slot ` set (take k pb)"
  shows "\<exists>j<k. slot (pb ! j) = slot (pb ! k) \<and> status (resolved now pb j) = Confirmed"
proof -
  have ex: "\<exists>j. j < k \<and> slot (pb ! j) = slot (pb ! k)"
    using assms slot_seen_iff[of k pb "slot (pb ! k)"] by simp
  define j where "j = (LEAST j. j < k \<and> slot (pb ! j) = slot (pb ! k))"
  have j: "j < k" "slot (pb ! j) = slot (pb ! k)"
    using LeastI_ex[OF ex] by (simp_all add: j_def)
  have least: "\<And>i. i < j \<Longrightarrow> \<not> (i < k \<and> slot (pb ! i) = slot (pb ! k))"
    unfolding j_def by (rule not_less_Least)
  have "slot (pb ! j) \<notin> slot ` set (take j pb)"
  proof
    assume "slot (pb ! j) \<in> slot ` set (take j pb)"
    then obtain i where "i < j" "slot (pb ! i) = slot (pb ! j)"
      using slot_seen_iff[of j pb "slot (pb ! j)"] j(1) assms(1) by auto
    then show False using least[of i] j by simp
  qed
  then have "status (resolved now pb j) = Confirmed" by (simp add: resolved_def)
  then show ?thesis using j by blast
qed

lemma resolved_status:
  assumes "k < length pb"
  shows "status (resolved now pb k) = Confirmed \<longleftrightarrow>
           \<not> (\<exists>j<k. slot (pb ! j) = slot (pb ! k) \<and> status (resolved now pb j) = Confirmed)"
    and "status (resolved now pb k) = Rejected \<longleftrightarrow>
           (\<exists>j<k. slot (pb ! j) = slot (pb ! k) \<and> status (resolved now pb j) = Confirmed)"
proof -
  have a: "slot (pb ! k) \<in> slot ` set (take k pb) \<longleftrightarrow>
      (\<exists>j<k. slot (pb ! j) = slot (pb ! k) \<and> status (resolved now pb j) = Confirmed)"
    using first_of_slot_confirmed[OF assms, of now] slot_seen_iff[of k pb "slot (pb ! k)"] assms
    by auto
  show "status (resolved now pb k) = Confirmed \<longleftrightarrow>
           \<not> (\<exists>j<k. slot (pb ! j) = slot (pb ! k) \<and> status (resolved now pb j) = Confirmed)"
    unfolding a[symmetric] by (simp add: resolved_def)
  show "status (resolved now pb k) = Rejected \<longleftrightarrow>
           (\<exists>j<k. slot (pb ! j) = slot (pb ! k) \<and> status (resolved now pb j) = Confirmed)"
    unfolding a[symmetric] by (simp add: resolved_def)
qed

lemma lower_score_earlier:
  assumes "sorted (map priority_score pb)" "j < length pb" "k < length pb"
    and "priority_score (pb ! j) < priority_score (pb ! k)"
  shows "j < k"
proof (rule ccontr)
  assume "\<not> j < k"
  then have "k \<le> j" by simp
  then have "map priority_score pb ! k \<le> map priority_score pb ! j"
    using assms(1,2) by (simp add: sorted_iff_nth_mono del: nth_map)
  then show False using assms(2,3,4) by simp
qed

text \<open>
  Claim C8. One pass of \<open>process_booking_queue\<close> for a trainer resolves every booking
  \<open>pb\<close> that was pending for the trainer at its start: the booking at place \<open>k\<close> of the
  pass's order is confirmed if and only if no booking of the same slot was confirmed
  earlier in the pass, and rejected otherwise; of two pending bookings of one slot with
  scores \<open>s1 < s2\<close> the one with \<open>s2\<close> is rejected, and a booking whose score is
  strictly below that of every other pending booking of its slot is confirmed; no booking
  of the trainer is pending afterwards; and the count returned is the number of bookings
  that were pending. The primary keys of the table are distinct.
\<close>
theorem scheduling_pass_resolves_all:
  assumes "distinct (map b_id db)"
    and "pb = pending_bookings trainer_id db"
    and "res = process_booking_queue now trainer_id db"
  shows "set pb = {b \<in> set db. trainer b = trainer_id \<and> status b = Pending} \<and>
         fst res = length pb \<and>
         (\<forall>k<length pb.
            get_booking (snd res) (b_id (pb ! k)) = Some (resolved now pb k) \<and>
            (status (resolved now pb k) = Confirmed \<longleftrightarrow>
               \<not> (\<exists>j<k. slot (pb ! j) = slot (pb ! k) \<and> status (resolved now pb j) = Confirmed)) \<and>
            (status (resolved now pb k) = Rejected \<longleftrightarrow>
               (\<exists>j<k. slot (pb ! j) = slot (pb ! k) \<and> status (resolved now pb j) = Confirmed))) \<and>
         (\<forall>b1 \<in> set pb. \<forall>b2 \<in> set pb.
            slot b1 = slot b2 \<and> priority_score b1 < priority_score b2 \<longrightarrow>
            map_option status (get_booking (snd res) (b_id b2)) = Some Rejected) \<and>
         (\<forall>b1 \<in> set pb.
            (\<forall>b2 \<in> set pb. b2 \<noteq> b1 \<and> slot b2 = slot b1 \<longrightarrow> priority_score b1 < priority_score b2) \<longrightarrow>
            map_option status (get_booking (snd res) (b_id b1)) = Some Confirmed) \<and>
         (\<forall>x \<in> set (snd res). trainer x = trainer_id \<longrightarrow> status x \<noteq> Pending)"
proof -
  note ps = pass_spec[OF assms]
  have sorted: "sorted (map priority_score pb)" unfolding assms(2) by (rule pending_bookings_sorted)
  have dq: "distinct pb"
    using pending_bookings_distinct[OF assms(1), of trainer_id] by (simp add: assms(2) distinct_map)
  have c1: "set pb = {b \<in> set db. trainer b = trainer_id \<and> status b = Pending}"
    unfolding assms(2) by (rule pending_bookings_set)
  have c3: "\<forall>k<length pb.
            get_booking (snd res) (b_id (pb ! k)) = Some (resolved now pb k) \<and>
            (status (resolved now pb k) = Confirmed \<longleftrightarrow>
               \<not> (\<exists>j<k. slot (pb ! j) = slot (pb ! k) \<and> status (resolved now pb j) = Confirmed)) \<and>
            (status (resolved now pb k) = Rejected \<longleftrightarrow>
               (\<exists>j<k. slot (pb ! j) = slot (pb ! k) \<and> status (resolved now pb j) = Confirmed))"
    using ps(4) resolved_status[of _ pb now] by blast
  have c4: "\<forall>b1 \<in> set pb. \<forall>b2 \<in> set pb.
            slot b1 = slot b2 \<and> priority_score b1 < priority_score b2 \<longrightarrow>
            map_option status (get_booking (snd res) (b_id b2)) = Some Rejected"
  proof (intro ballI impI)
    fix b1 b2 assume b: "b1 \<in> set pb" "b2 \<in> set pb"
      and h: "slot b1 = slot b2 \<and> priority_score b1 < priority_score b2"
    from b obtain j k where jk: "j < length pb" "pb ! j = b1" "k < length pb" "pb ! k = b2"
      by (auto simp: in_set_conv_nth)
    have "j < k" using lower_score_earlier[OF sorted jk(1) jk(3)] h jk by simp
    then have "slot (pb ! k) \<in> slot ` set (take k pb)"
      using slot_seen_iff[of k pb "slot (pb ! k)"] jk h by auto
    then have "status (resolved now pb k) = Rejected" by (simp add: resolved_def)
    then show "map_option status (get_booking (snd res) (b_id b2)) = Some Rejected"
      using ps(4)[OF jk(3)] jk(4) by simp
  qed
  have c5: "\<forall>b1 \<in> set pb.
            (\<forall>b2 \<in> set pb. b2 \<noteq> b1 \<and> slot b2 = slot b1 \<longrightarrow> priority_score b1 < priority_score b2) \<longrightarrow>
            map_option status (get_booking (snd res) (b_id b1)) = Some Confirmed"
  proof (intro ballI impI)
    fix b1 assume b: "b1 \<in> set pb"
      and h: "\<forall>b2 \<in> set pb. b2 \<noteq> b1 \<and> slot b2 = slot b1 \<longrightarrow> priority_score b1 < priority_score b2"
    from b obtain k where k: "k < length pb" "pb ! k = b1" by (auto simp: in_set_conv_nth)
    have "slot (pb ! k) \<notin> slot ` set (take k pb)"
    proof
      assume "slot (pb ! k) \<in> slot ` set (take k pb)"
      then obtain j where j: "j < k" "slot (pb ! j) = slot (pb ! k)"
        using slot_seen_iff[of k pb "slot (pb ! k)"] k(1) by auto
      have jl: "j < length pb" using j(1) k(1) by simp
      have "pb ! j \<noteq> pb ! k" using dq j(1) jl k(1) by (simp add: nth_eq_iff_index_eq)
      then have "priority_score (pb ! k) < priority_score (pb ! j)"
        using h j(2) k(2) jl by auto
      from lower_score_earlier[OF sorted k(1) jl this] j(1) show False by simp
    qed
    then have "status (resolved now pb k) = Confirmed" by (simp add: resolved_def)
    then show "map_option status (get_booking (snd res) (b_id b1)) = Some Confirmed"
      using ps(4)[OF k(1)] k(2) by simp
  qed
  have c6: "\<forall>x \<in> set (snd res). trainer x = trainer_id \<longrightarrow> status x \<noteq> Pending"
  proof (intro ballI impI)
    fix x assume x: "x \<in> set (snd res)" and t: "trainer x = trainer_id"
    have d': "distinct (map b_id (snd res))" using ps(2) assms(1) by simp
    have "b_id x \<in> set (map b_id db)" using x ps(2) by (metis image_eqI set_map)
    then obtain y where y: "y \<in> set db" "b_id y = b_id x" by auto
    show "status x \<noteq> Pending"
    proof (cases "y \<in> set pb")
      case True
      then obtain k where k: "k < length pb" "pb ! k = y" by (auto simp: in_set_conv_nth)
      have "get_booking (snd res) (b_id x) = Some (resolved now pb k)"
        using ps(4)[OF k(1)] k(2) y(2) by simp
      then have "x = resolved now pb k" using get_booking_Some[OF d' x] by simp
      then show ?thesis by (simp add: resolved_def)
    next
      case False
      then have "get_booking (snd res) (b_id x) = Some y" using ps(3)[OF y(1)] y(2) by simp
      then have "x = y" using get_booking_Some[OF d' x] by simp
      then show ?thesis using False y(1) t c1 by auto
    qed
  qed
  show ?thesis using c1 ps(1) c3 c4 c5 c6 by blast
qed

lemma insort_key_map_same_key:
  assumes "\<And>x. f (g x) = f x"
  shows "insort_key f (g x) (map g ys) = map g (insort_key f x ys)"
  by (induction ys) (simp_all add: assms)

lemma sort_key_map_same_key:
  assumes "\<And>x. f (g x) = f x"
  shows "sort_key f (map g xs) = map g (sort_key f xs)"
proof (induction xs)
  case Nil
  then show ?case by simp
next
  case (Cons x xs)
  have "insort_key f (g x) (map g (sort_key f xs)) = map g (insort_key f x (sort_key f xs))"
    by (rule insort_key_map_same_key) (rule assms)
  then show ?case using Cons by simp
qed

lemma pending_bookings_created_at:
  "pending_bookings trainer_id (map (\<lambda>b. b\<lparr>created_at := c b\<rparr>) db) =
     map (\<lambda>b. b\<lparr>created_at := c b\<rparr>) (pending_bookings trainer_id db)"
proof -
  have "filter (\<lambda>b. trainer b = trainer_id \<and> status b = Pending) (map (\<lambda>b. b\<lparr>created_at := c b\<rparr>) db) =
      map (\<lambda>b. b\<lparr>created_at := c b\<rparr>) (filter (\<lambda>b. trainer b = trainer_id \<and> status b = Pending) db)"
    by (simp add: filter_map o_def)
  then show ?thesis
    unfolding pending_bookings_def
    using sort_key_map_same_key[of priority_score "\<lambda>b. b\<lparr>created_at := c b\<rparr>"]
    by simp
qed

text \<open>
  Claim C4, as amended. Within one pass the trainer's pending bookings are processed in
  ascending order of \<open>priority_score\<close>: the order \<open>pb\<close> is sorted by score, holds exactly
  the pending bookings of the trainer, and the booking at place \<open>k\<close> takes the clock reading
  number \<open>k\<close> as its \<open>processed_at\<close>. Bookings with equal scores keep the order in which
  the table yields them; \<open>created_at\<close> has no part in the order: changing the
  \<open>created_at\<close> of any rows changes nothing else in it.
\<close>
theorem scheduling_order:
  assumes "distinct (map b_id db)"
    and "pb = pending_bookings trainer_id db"
  shows "sorted (map priority_score pb) \<and>
         mset pb = mset (filter (\<lambda>b. trainer b = trainer_id \<and> status b = Pending) db) \<and>
         (\<forall>s. filter (\<lambda>b. priority_score b = s) pb =
              filter (\<lambda>b. priority_score b = s)
                (filter (\<lambda>b. trainer b = trainer_id \<and> status b = Pending) db)) \<and>
         (\<forall>k<length pb.
            map_option processed_at
              (get_booking (snd (process_booking_queue now trainer_id db)) (b_id (pb ! k))) =
              Some (Some (now k))) \<and>
         pending_bookings trainer_id (map (\<lambda>b. b\<lparr>created_at := c b\<rparr>) db) =
           map (\<lambda>b. b\<lparr>created_at := c b\<rparr>) pb"
proof -
  have "\<forall>k<length pb.
      map_option processed_at
        (get_booking (snd (process_booking_queue now trainer_id db)) (b_id (pb ! k))) =
        Some (Some (now k))"
    using pass_spec(4)[OF assms refl, of _ now] by (simp add: resolved_def)
  moreover have "\<forall>s. filter (\<lambda>b. priority_score b = s) pb =
      filter (\<lambda>b. priority_score b = s)
        (filter (\<lambda>b. trainer b = trainer_id \<and> status b = Pending) db)"
    unfolding assms(2) pending_bookings_def by (simp only: sort_key_stable) simp
  ultimately show ?thesis
    using pending_bookings_sorted[of trainer_id db] pending_bookings_created_at[of trainer_id c db]
    by (simp add: assms(2)) (simp add: pending_bookings_def)
qed

text \<open>The statement at the three example bookings, processed in the order 100, 150, 200.\<close>
theorem scheduling_order_witness:
  "distinct (map b_id [booking_a, booking_b, booking_c]) \<and>
   pending_bookings 7 [booking_a, booking_b, booking_c] = [booking_a, booking_c, booking_b] \<and>
   sorted (map priority_score [booking_a, booking_c, booking_b]) \<and>
   map_option processed_at
     (get_booking (snd (process_booking_queue (\<lambda>k. 1000 + int k) 7
        [booking_a, booking_b, booking_c])) (b_id booking_a)) = Some (Some 1000) \<and>
   map_option processed_at
     (get_booking (snd (process_booking_queue (\<lambda>k. 1000 + int k) 7
        [booking_a, booking_b, booking_c])) (b_id booking_c)) = Some (Some 1001) \<and>
   map_option processed_at
     (get_booking (snd (process_booking_queue (\<lambda>k. 1000 + int k) 7
        [booking_a, booking_b, booking_c])) (b_id booking_b)) = Some (Some 1002)"
proof -
  have d: "distinct (map b_id [booking_a, booking_b, booking_c])"
    by (simp add: booking_a_def booking_b_def booking_c_def)
  have p: "[booking_a, booking_c, booking_b] = pending_bookings 7 [booking_a, booking_b, booking_c]"
    by (simp add: pending_bookings_def booking_a_def booking_b_def booking_c_def)
  note T = scheduling_order [OF d p, of "\<lambda>k. 1000 + int k" created_at]
  have s: "sorted (map priority_score [booking_a, booking_c, booking_b])" using T by blast
  have k: "\<forall>k<length [booking_a, booking_c, booking_b].
      map_option processed_at
        (get_booking (snd (process_booking_queue (\<lambda>k. 1000 + int k) 7
             [booking_a, booking_b, booking_c]))
           (b_id ([booking_a, booking_c, booking_b] ! k))) = Some (Some (1000 + int k))"
    using T by blast
  show ?thesis using d p[symmetric] s k[rule_format, of 0] k[rule_format, of 1] k[rule_format, of 2]
    by simp
qed

text \<open>
  Claim C4 as stated fails: of two pending bookings with the same score, and so the same
  slot, the one that comes first in the table is processed first and confirmed, though its
  \<open>created_at\<close> is the later one; the booking created earlier is processed second and
  rejected.
\<close>
theorem scheduling_order_ignores_created_at:
  "process_booking_queue (\<lambda>k. 1000 + int k) 7 [booking_late, booking_early] =
     (2, [booking_late\<lparr>status := Confirmed, processed_at := Some 1000\<rparr>,
          booking_early\<lparr>status := Rejected, processed_at := Some 1001\<rparr>]) \<and>
   priority_score booking_late = priority_score booking_early \<and>
   created_at booking_early < created_at booking_late"
  by (simp add: process_booking_queue_def pending_bookings_def save_booking_def
      booking_late_def booking_early_def)

text \<open>
  The statement at the three example bookings: scores 100 and 200 on one slot, 150 on
  another; the pass confirms 100, rejects 200, and returns 3.
\<close>
theorem scheduling_pass_resolves_all_witness:
  "distinct (map b_id [booking_a, booking_b, booking_c]) \<and>
   pending_bookings 7 [booking_a, booking_b, booking_c] = [booking_a, booking_c, booking_b] \<and>
   fst (process_booking_queue (\<lambda>k. 1000 + int k) 7 [booking_a, booking_b, booking_c]) = 3 \<and>
   slot booking_a = slot booking_b \<and> priority_score booking_a < priority_score booking_b \<and>
   map_option status
     (get_booking (snd (process_booking_queue (\<lambda>k. 1000 + int k) 7
        [booking_a, booking_b, booking_c])) (b_id booking_b)) = Some Rejected \<and>
   map_option status
     (get_booking (snd (process_booking_queue (\<lambda>k. 1000 + int k) 7
        [booking_a, booking_b, booking_c])) (b_id booking_a)) = Some Confirmed"
proof -
  have d: "distinct (map b_id [booking_a, booking_b, booking_c])"
    by (simp add: booking_a_def booking_b_def booking_c_def)
  have p: "[booking_a, booking_c, booking_b] = pending_bookings 7 [booking_a, booking_b, booking_c]"
    by (simp add: pending_bookings_def booking_a_def booking_b_def booking_c_def)
  have s: "slot booking_a = slot booking_b" "priority_score booking_a < priority_score booking_b"
    "slot booking_c \<noteq> slot booking_a" "booking_a \<noteq> booking_b"
    by (simp_all add: slot_def booking_a_def booking_b_def booking_c_def)
  let ?res = "process_booking_queue (\<lambda>k. 1000 + int k) 7 [booking_a, booking_b, booking_c]"
  note T = scheduling_pass_resolves_all [OF d p refl, of "\<lambda>k. 1000 + int k"]
  have n: "fst ?res = 3" using T by simp
  have r: "\<forall>b1 \<in> set [booking_a, booking_c, booking_b]. \<forall>b2 \<in> set [booking_a, booking_c, booking_b].
      slot b1 = slot b2 \<and> priority_score b1 < priority_score b2 \<longrightarrow>
      map_option status (get_booking (snd ?res) (b_id b2)) = Some Rejected"
    using T by blast
  have c: "\<forall>b1 \<in> set [booking_a, booking_c, booking_b].
      (\<forall>b2 \<in> set [booking_a, booking_c, booking_b].
          b2 \<noteq> b1 \<and> slot b2 = slot b1 \<longrightarrow> priority_score b1 < priority_score b2) \<longrightarrow>
      map_option status (get_booking (snd ?res) (b_id b1)) = Some Confirmed"
    using T by blast
  have "booking_a \<in> set [booking_a, booking_c, booking_b]"
    "booking_b \<in> set [booking_a, booking_c, booking_b]" by simp_all
  then have rej: "map_option status (get_booking (snd ?res) (b_id booking_b)) = Some Rejected"
    using r s(1,2) by blast
  have "\<forall>b2 \<in> set [booking_a, booking_c, booking_b].
      b2 \<noteq> booking_a \<and> slot b2 = slot booking_a \<longrightarrow> priority_score booking_a < priority_score b2"
    using s by auto
  moreover have "booking_a \<in> set [booking_a, booking_c, booking_b]" by simp
  ultimately have conf: "map_option status (get_booking (snd ?res) (b_id booking_a)) = Some Confirmed"
    using c by blast
  show ?thesis using d p[symmetric] n s rej conf by simp
qed

text \<open>
  Claim C2 fails on the code. A pass confirms \<open>booking_a\<close>; a new pending booking
  \<open>booking_b\<close> of the same trainer for the same date and time is then created; the next
  pass starts with an empty \<open>confirmed_times\<close>, never reads the bookings that are
  already confirmed, and confirms \<open>booking_b\<close> too.
\<close>
theorem double_booking_across_passes:
  "snd (process_booking_queue (\<lambda>k. 2000 + int k) 7
         (snd (process_booking_queue (\<lambda>k. 1000 + int k) 7 [booking_a]) @ [booking_b])) =
     [booking_a\<lparr>status := Confirmed, processed_at := Some 1000\<rparr>,
      booking_b\<lparr>status := Confirmed, processed_at := Some 2000\<rparr>] \<and>
   trainer booking_a = trainer booking_b \<and>
   requested_date booking_a = requested_date booking_b \<and>
   requested_time booking_a = requested_time booking_b"
  by (simp add: process_booking_queue_def pending_bookings_def save_booking_def
      booking_a_def booking_b_def)

end
